theory Spec2Isabelle
  imports Main "HOL-Library.Sublist"
begin

section \<open>Data model\<close>

text \<open>
  A node is the string of an absolute URL (\<^verbatim>\<open>str(url)\<close>); two URLs are the same
  node exactly when their strings are equal.  A link is a \<^verbatim>\<open>bs4\<close> anchor tag of which
  the crawler reads the visible text (\<^verbatim>\<open>link.text\<close>) and the \<^verbatim>\<open>href\<close> attribute.
\<close>

type_synonym node = string

record link =
  link_text :: string
  href :: string

text \<open>
  \<^verbatim>\<open>self._graph = defaultdict(set)\<close>: a dictionary from node strings to sets of node
  strings.  The dictionary is an association list with unique keys; a Python set is the list
  of its elements in the order in which iterating the set yields them.
\<close>

type_synonym graph = "(node \<times> node list) list"

text \<open>
  \<^verbatim>\<open>self._queue = asyncio.PriorityQueue()\<close> holds tuples \<^verbatim>\<open>(priority, url)\<close>.
\<close>

type_synonym entry = "nat \<times> node"

record crawler =
  graph :: graph
  queue :: "entry list"
  target_found :: bool

text \<open>
  The control state of one \<^verbatim>\<open>_worker\<close> coroutine between two suspensions:
  at the loop test of line 82, suspended in \<^verbatim>\<open>queue.get()\<close> on an empty queue
  (line 83), suspended in the fetch of lines 85 to 87, or returned.
\<close>

datatype task = AtLoop | Waiting | Fetching node | Done

record config =
  shared :: crawler
  workers :: "task list"

text \<open>
  The fields of \<^verbatim>\<open>WikiCrawler\<close> that never change, and the collaborators the crawler
  calls.  \<open>fetch n\<close> is \<open>None\<close> when the response for \<open>n\<close> is not
  \<^verbatim>\<open>text/html\<close> and otherwise the article links of the page
  (\<^verbatim>\<open>_get_article_links\<close>); \<open>str_lower\<close> is Python's \<^verbatim>\<open>str.lower\<close>;
  \<open>url_of h\<close> is the URL that \<^verbatim>\<open>yarl.URL(h)\<close> builds, as its string (yarl
  re-quotes the text, so it need not be \<open>h\<close>); \<open>join cur u\<close> is the string of
  \<^verbatim>\<open>cur.join(u)\<close>; \<open>url_less\<close> is the order of \<^verbatim>\<open>yarl.URL\<close>, which
  breaks ties between queue entries of equal priority; \<open>place v xs\<close> is the iteration
  order of a set after \<open>v\<close>, not yet a member, was added to the set that iterated as
  \<open>xs\<close>; \<open>sched\<close> is the task the event loop resumes next.
\<close>

record env =
  start :: node
  target :: node
  keyword_list :: "string list"
  concurrent :: nat
  fetch :: "node \<Rightarrow> link list option"
  str_lower :: "string \<Rightarrow> string"
  url_of :: "string \<Rightarrow> string"
  join :: "node \<Rightarrow> string \<Rightarrow> node"
  url_less :: "node \<Rightarrow> node \<Rightarrow> bool"
  place :: "node \<Rightarrow> node list \<Rightarrow> node list"
  sched :: "config \<Rightarrow> nat"

datatype error = KeyError

text \<open>
  What a call does: it returns a value, raises, or stays suspended for ever on the empty
  queue.  (A crawl that keeps fetching new pages without end has no outcome at all.)
\<close>

datatype 'a outcome = Returns 'a | Raises error | Blocks

section \<open>Link prioritisation\<close>

text \<open>
  A Python string is the list of the bytes of its UTF-8 encoding; \<^verbatim>\<open>word in text\<close> is
  the test for a contiguous sublist.

  The inner loop of \<^verbatim>\<open>_prioritize_by_keyword\<close> (lines 110 to 115) over the lowered
  keywords, \<open>index\<close> counting from the position reached; \<open>None\<close> is the
  \<^verbatim>\<open>else\<close> branch of the \<^verbatim>\<open>for\<close>.
\<close>

fun first_match :: "env \<Rightarrow> string \<Rightarrow> string \<Rightarrow> nat \<Rightarrow> string list \<Rightarrow> nat option" where
  "first_match e txt h index [] = None"
| "first_match e txt h index (word # ws) =
     (if sublist word txt \<or> sublist word (str_lower e h) then Some index
      else first_match e txt h (Suc index) ws)"

text \<open>\<^verbatim>\<open>_prioritize_by_keyword\<close> (lines 105 to 115); it yields \<^verbatim>\<open>URL(href)\<close>.\<close>

fun prioritize_by_keyword :: "env \<Rightarrow> link list \<Rightarrow> string list \<Rightarrow> (nat \<times> string) list" where
  "prioritize_by_keyword e [] kws = []"
| "prioritize_by_keyword e (l # links) kws =
     (case first_match e (str_lower e (link_text l)) (href l) 0 (map (str_lower e) kws) of
        Some index \<Rightarrow> (index, url_of e (href l))
      | None \<Rightarrow> (length kws, url_of e (href l))) # prioritize_by_keyword e links kws"

section \<open>The graph and the frontier\<close>

text \<open>\<^verbatim>\<open>key in self._graph\<close>.\<close>

definition has_entry :: "graph \<Rightarrow> node \<Rightarrow> bool" where
  "has_entry g k = (map_of g k \<noteq> None)"

text \<open>The recorded out-edges of a node, without touching the dictionary.\<close>

definition neighbors :: "graph \<Rightarrow> node \<Rightarrow> node list" where
  "neighbors g k = (case map_of g k of None \<Rightarrow> [] | Some xs \<Rightarrow> xs)"

definition edges :: "graph \<Rightarrow> (node \<times> node) set" where
  "edges g = {(k, v). v \<in> set (neighbors g k)}"

text \<open>
  \<^verbatim>\<open>self._graph[k]\<close>: \<^verbatim>\<open>defaultdict.__getitem__\<close> stores a fresh empty set under a
  missing key before it returns it.
\<close>

definition getitem :: "graph \<Rightarrow> node \<Rightarrow> graph \<times> node list" where
  "getitem g k = (case map_of g k of None \<Rightarrow> (g @ [(k, [])], []) | Some xs \<Rightarrow> (g, xs))"

text \<open>\<^verbatim>\<open>s.add(v)\<close>: a member is not added again.\<close>

definition set_add :: "env \<Rightarrow> node \<Rightarrow> node list \<Rightarrow> node list" where
  "set_add e v xs = (if v \<in> set xs then xs else place e v xs)"

fun assign :: "node \<Rightarrow> node list \<Rightarrow> graph \<Rightarrow> graph" where
  "assign k xs [] = []"
| "assign k xs ((k', ys) # g) = (if k' = k then (k, xs) # g else (k', ys) # assign k xs g)"

text \<open>\<^verbatim>\<open>self._graph[k].add(v)\<close> (line 74).\<close>

definition graph_add :: "env \<Rightarrow> node \<Rightarrow> node \<Rightarrow> graph \<Rightarrow> graph" where
  "graph_add e k v g = (case getitem g k of (g', xs) \<Rightarrow> assign k (set_add e v xs) g')"

text \<open>
  The environment adds elements to sets as Python does: the set afterwards holds the old
  elements and the new one, in whatever order.
\<close>

definition place_ok :: "env \<Rightarrow> bool" where
  "place_ok e = (\<forall>v xs. set (place e v xs) = insert v (set xs))"

text \<open>
  Python compares the tuples \<^verbatim>\<open>(priority, url)\<close> lexicographically;
  \<^verbatim>\<open>PriorityQueue.get\<close> removes the least entry.
\<close>

fun entry_less :: "(node \<Rightarrow> node \<Rightarrow> bool) \<Rightarrow> entry \<Rightarrow> entry \<Rightarrow> bool" where
  "entry_less lt (p, u) (p', u') = (p < p' \<or> (p = p' \<and> lt u u'))"

fun least_entry :: "(node \<Rightarrow> node \<Rightarrow> bool) \<Rightarrow> entry \<Rightarrow> entry list \<Rightarrow> entry" where
  "least_entry lt m [] = m"
| "least_entry lt m (x # xs) = least_entry lt (if entry_less lt x m then x else m) xs"

definition queue_get :: "(node \<Rightarrow> node \<Rightarrow> bool) \<Rightarrow> entry list \<Rightarrow> (entry \<times> entry list) option" where
  "queue_get lt q =
     (case q of [] \<Rightarrow> None
      | x # xs \<Rightarrow> (let m = least_entry lt x xs in Some (m, remove1 m q)))"

definition queue_put :: "entry \<Rightarrow> entry list \<Rightarrow> entry list" where
  "queue_put x q = q @ [x]"

section \<open>Expansion of a page\<close>

text \<open>
  The loop of \<^verbatim>\<open>_process_links\<close> (lines 72 to 79) over the prioritised links.  The
  queue is unbounded, so \<^verbatim>\<open>await self._queue.put\<close> never suspends and the whole loop
  runs without interruption by another task.
\<close>

fun process_loop :: "env \<Rightarrow> node \<Rightarrow> (nat \<times> string) list \<Rightarrow> crawler \<Rightarrow> crawler" where
  "process_loop e current [] st = st"
| "process_loop e current ((priority, u) # rest) st =
     (let url = join e current u;
          st1 = st\<lparr>graph := graph_add e current url (graph st)\<rparr>
      in if url = target e then st1\<lparr>target_found := True\<rparr>
         else process_loop e current rest (st1\<lparr>queue := queue_put (priority, url) (queue st1)\<rparr>))"

definition process_links :: "env \<Rightarrow> link list \<Rightarrow> node \<Rightarrow> crawler \<Rightarrow> crawler" where
  "process_links e links current st =
     process_loop e current (prioritize_by_keyword e links (keyword_list e)) st"

section \<open>Workers\<close>

text \<open>
  Lines 83 and 84, run when the worker is at \<^verbatim>\<open>queue.get()\<close>: with an empty queue
  it suspends; otherwise it takes the least entry and either skips a node that has an entry
  in the graph (line 94, then back to the loop test) or starts to fetch it.
\<close>

definition take_entry :: "env \<Rightarrow> crawler \<Rightarrow> task \<times> crawler" where
  "take_entry e st =
     (case queue_get (url_less e) (queue st) of
        None \<Rightarrow> (Waiting, st)
      | Some ((priority, current), q') \<Rightarrow>
          (if has_entry (graph st) current then AtLoop else Fetching current,
           st\<lparr>queue := q'\<rparr>))"

text \<open>
  Lines 86 to 93, run when the response for \<open>current\<close> has arrived: the links of an
  HTML page are processed, any other response is dropped (\<^verbatim>\<open>continue\<close>).
\<close>

definition on_response :: "env \<Rightarrow> node \<Rightarrow> crawler \<Rightarrow> crawler" where
  "on_response e current st =
     (case fetch e current of
        Some links \<Rightarrow> process_links e links current st
      | None \<Rightarrow> st)"

text \<open>
  One uninterrupted run of a worker from its control state to its next suspension.
  \<open>None\<close>: the task cannot run (it has returned, or it waits and the queue is still
  empty).  The semaphore has as many permits as there are workers and each worker holds at
  most one, so acquiring it never suspends; \<^verbatim>\<open>task_done\<close> only counts for
  \<^verbatim>\<open>queue.join\<close>, which nothing calls.
\<close>

fun resume :: "env \<Rightarrow> task \<Rightarrow> crawler \<Rightarrow> (task \<times> crawler) option" where
  "resume e AtLoop st = Some (if target_found st then (Done, st) else take_entry e st)"
| "resume e Waiting st = (if queue st = [] then None else Some (take_entry e st))"
| "resume e (Fetching current) st = Some (AtLoop, on_response e current st)"
| "resume e Done st = None"

definition fire :: "env \<Rightarrow> nat \<Rightarrow> config \<Rightarrow> config option" where
  "fire e i c =
     (if i < length (workers c) then
        (case resume e (workers c ! i) (shared c) of
           None \<Rightarrow> None
         | Some (t, st) \<Rightarrow> Some \<lparr>shared = st, workers = (workers c)[i := t]\<rparr>)
      else None)"

definition step :: "env \<Rightarrow> config \<Rightarrow> config \<Rightarrow> bool" where
  "step e c c' = (\<exists>i < length (workers c). fire e i c = Some c')"


definition runnable :: "env \<Rightarrow> config \<Rightarrow> nat list" where
  "runnable e c = filter (\<lambda>i. fire e i c \<noteq> None) [0 ..< length (workers c)]"

text \<open>
  \<^verbatim>\<open>asyncio.gather\<close> over the workers: it returns when every worker has returned;
  when no worker has returned yet can run, the event loop waits for ever.  Otherwise the
  event loop resumes the scheduled task (the first runnable one if the scheduler names a
  task that cannot run).
\<close>

partial_function (option) gather :: "env \<Rightarrow> config \<Rightarrow> crawler outcome option" where
  [code]: "gather e c =
     (if \<forall>t \<in> set (workers c). t = Done then Some (Returns (shared c))
      else (case runnable e c of
              [] \<Rightarrow> Some Blocks
            | i # is \<Rightarrow>
                (case fire e (if sched e c \<in> set (i # is) then sched e c else i) c of
                   None \<Rightarrow> None
                 | Some c' \<Rightarrow> gather e c')))"

definition init_crawler :: crawler where
  "init_crawler = \<lparr>graph = [], queue = [], target_found = False\<rparr>"

definition pool_init :: "env \<Rightarrow> link list \<Rightarrow> config" where
  "pool_init e links =
     \<lparr>shared = process_links e links (start e) init_crawler,
      workers = replicate (concurrent e) AtLoop\<rparr>"

text \<open>\<^verbatim>\<open>_first\<close> (lines 60 to 69).\<close>

definition first :: "env \<Rightarrow> crawler outcome option" where
  "first e =
     (case fetch e (start e) of
        None \<Rightarrow> Some (Returns init_crawler)
      | Some links \<Rightarrow> gather e (pool_init e links))"

section \<open>Path reconstruction\<close>

text \<open>
  The values of \<^verbatim>\<open>dist\<close> are nested lists of strings: \<^verbatim>\<open>[start]\<close>, then
  \<^verbatim>\<open>[dist[at], next_]\<close>.
\<close>

datatype nested = Str string | Lst "nested list"

type_synonym dist = "node \<Rightarrow> nested option"

text \<open>
  \<^verbatim>\<open>_flatten\<close> (lines 97 to 102): an item that is a list is flattened in turn, a string
  is yielded.  Iterating a string itself yields its characters.
\<close>

fun flatten :: "nested \<Rightarrow> string list" where
  "flatten (Str s) = map (\<lambda>c. [c]) s"
| "flatten (Lst items) =
     concat (map (\<lambda>item. case item of Str s \<Rightarrow> [s] | Lst ys \<Rightarrow> flatten item) items)"

text \<open>\<^verbatim>\<open>_flatten(dist.get(target))\<close>: \<^verbatim>\<open>None or []\<close> is the empty list.\<close>

definition flatten_arg :: "nested option \<Rightarrow> string list" where
  "flatten_arg x = (case x of None \<Rightarrow> [] | Some v \<Rightarrow> flatten v)"

text \<open>
  The \<^verbatim>\<open>for\<close> loop of lines 54 to 57 over the neighbours of \<open>at\<close>;
  \<^verbatim>\<open>dist[at]\<close> raises \<^verbatim>\<open>KeyError\<close> for a missing key.
\<close>

fun visit :: "node \<Rightarrow> node list \<Rightarrow> dist \<Rightarrow> node list \<Rightarrow> error + (dist \<times> node list)" where
  "visit at [] d q = Inr (d, q)"
| "visit at (nxt # ns) d q =
     (if d nxt \<noteq> None then visit at ns d q
      else (case d at of
              None \<Rightarrow> Inl KeyError
            | Some p \<Rightarrow> visit at ns (d(nxt \<mapsto> Lst [p, Str nxt])) (q @ [nxt])))"

text \<open>The nodes that occur in some adjacency set of the graph.\<close>

definition nodes_of :: "graph \<Rightarrow> node set" where
  "nodes_of g = (\<Union>(k, xs) \<in> set g. set xs)"

text \<open>
  The \<^verbatim>\<open>while len(q)\<close> loop of lines 52 to 57.  It ends because every node is
  appended to \<open>q\<close> at most once, when it enters \<open>dist\<close>, and only nodes of the
  graph are appended.
\<close>

function bfs :: "graph \<Rightarrow> dist \<Rightarrow> node list \<Rightarrow> error + (graph \<times> dist)" where
  "bfs g d [] = Inr (g, d)"
| "bfs g d (at # q) =
     (case getitem g at of
        (g', nbrs) \<Rightarrow>
          (case visit at nbrs d q of
             Inl err \<Rightarrow> Inl err
           | Inr (d', q') \<Rightarrow> bfs g' d' q'))"
  by pat_completeness auto
termination
proof (relation "(\<lambda>(g, d, q). card (nodes_of g - dom d)) <*mlex*> measure (\<lambda>(g, d, q). length q)")
  show "wf ((\<lambda>(g, d, q). card (nodes_of g - dom d)) <*mlex*> measure (\<lambda>(g, d, q). length q))"
    by (simp add: wf_mlex)
next
  fix g :: graph and d :: dist and at :: node and q :: "node list"
    and x g' nbrs x2 d' q'
  assume gi: "(g', nbrs) = getitem g at" and v: "visit at nbrs d q = Inr x2" and x2: "(d', q') = x2"
  have grows: "(d1 = d0 \<and> q1 = q0) \<or> (dom d0 \<subset> dom d1 \<and> dom d1 \<subseteq> dom d0 \<union> set ns)"
    if "visit at ns d0 q0 = Inr (d1, q1)" for ns d0 q0 d1 q1
    using that
  proof (induction ns arbitrary: d0 q0)
    case Nil
    then show ?case by simp
  next
    case (Cons n ns)
    show ?case
    proof (cases "d0 n \<noteq> None")
      case True
      with Cons.prems have "visit at ns d0 q0 = Inr (d1, q1)" by simp
      from Cons.IH[OF this] show ?thesis by auto
    next
      case False
      with Cons.prems obtain p where p: "d0 at = Some p"
        and v: "visit at ns (d0(n \<mapsto> Lst [p, Str n])) (q0 @ [n]) = Inr (d1, q1)"
        by (auto split: option.splits)
      from False have nd: "n \<notin> dom d0" by (simp add: domIff)
      have dd: "dom (d0(n \<mapsto> Lst [p, Str n])) = insert n (dom d0)" by simp
      from Cons.IH[OF v] have "dom d0 \<subset> dom d1 \<and> dom d1 \<subseteq> dom d0 \<union> set (n # ns)"
      proof
        assume "d1 = d0(n \<mapsto> Lst [p, Str n]) \<and> q1 = q0 @ [n]"
        then have "dom d1 = insert n (dom d0)" by simp
        with nd show ?thesis by auto
      next
        assume "dom (d0(n \<mapsto> Lst [p, Str n])) \<subset> dom d1 \<and>
                dom d1 \<subseteq> dom (d0(n \<mapsto> Lst [p, Str n])) \<union> set ns"
        with nd show ?thesis unfolding dd by auto
      qed
      then show ?thesis by blast
    qed
  qed
  have fin: "finite (nodes_of g)"
    by (auto simp: nodes_of_def)
  from gi have n: "nodes_of g' = nodes_of g" "set nbrs \<subseteq> nodes_of g"
    by (fastforce simp: getitem_def nodes_of_def split: option.splits dest: map_of_SomeD)+
  from v x2 have "visit at nbrs d q = Inr (d', q')" by simp
  from grows[OF this]
  show "((g', d', q'), (g, d, at # q))
         \<in> (\<lambda>(g, d, q). card (nodes_of g - dom d)) <*mlex*> measure (\<lambda>(g, d, q). length q)"
  proof
    assume "d' = d \<and> q' = q"
    then show ?thesis using n by (simp add: mlex_iff)
  next
    assume a: "dom d \<subset> dom d' \<and> dom d' \<subseteq> dom d \<union> set nbrs"
    then obtain y where y: "y \<in> dom d'" "y \<notin> dom d" by blast
    with a n have "y \<in> nodes_of g - dom d" "y \<notin> nodes_of g - dom d'" by auto
    moreover have "nodes_of g - dom d' \<subseteq> nodes_of g - dom d" using a by auto
    ultimately have "nodes_of g - dom d' \<subset> nodes_of g - dom d" by blast
    then have "card (nodes_of g - dom d') < card (nodes_of g - dom d)"
      by (intro psubset_card_mono) (auto simp: fin)
    then show ?thesis using n by (simp add: mlex_iff)
  qed
qed

text \<open>\<^verbatim>\<open>shortest_path\<close> (lines 46 to 58); it returns the path and leaves the graph as the
  loop left it.\<close>

definition shortest_path :: "graph \<Rightarrow> node \<Rightarrow> node \<Rightarrow> error + (graph \<times> node list)" where
  "shortest_path g s t =
     (case bfs g [s \<mapsto> Lst [Str s]] [s] of
        Inl err \<Rightarrow> Inl err
      | Inr (g', d) \<Rightarrow> Inr (g', flatten_arg (d t)))"

text \<open>\<^verbatim>\<open>__call__\<close> (lines 41 to 44).\<close>

definition call :: "env \<Rightarrow> node list outcome option" where
  "call e =
     (case first e of
        None \<Rightarrow> None
      | Some (Returns st) \<Rightarrow>
          (case shortest_path (graph st) (start e) (target e) of
             Inl err \<Rightarrow> Some (Raises err)
           | Inr (g', path) \<Rightarrow> Some (Returns path))
      | Some (Raises err) \<Rightarrow> Some (Raises err)
      | Some Blocks \<Rightarrow> Some Blocks)"

section \<open>Definitions used to state the properties\<close>

text \<open>The links of the spec's priority example.\<close>

definition example_links :: "link list" where
  "example_links =
     [\<lparr>link_text = ''Chemistry'', href = ''/wiki/Chem''\<rparr>,
      \<lparr>link_text = ''Physics today'', href = ''/wiki/Phys''\<rparr>,
      \<lparr>link_text = ''Unrelated'', href = ''/wiki/X''\<rparr>]"

text \<open>
  What \<^verbatim>\<open>str.lower\<close> does on ASCII text: the letters A to Z (codes 65 to 90) move to
  a to z, every other character stays.  An environment lowers as Python does when its
  \<open>str_lower\<close> agrees with this on every ASCII string.
\<close>

definition is_ascii :: "string \<Rightarrow> bool" where
  "is_ascii s = (\<forall>c \<in> set s. (of_char c :: nat) < 128)"

definition ascii_lower_char :: "char \<Rightarrow> char" where
  "ascii_lower_char c =
     (let n = (of_char c :: nat) in if 65 \<le> n \<and> n \<le> 90 then char_of (n + 32) else c)"

definition ascii_lower :: "string \<Rightarrow> string" where
  "ascii_lower s = map ascii_lower_char s"

definition lower_ok :: "env \<Rightarrow> bool" where
  "lower_ok e = (\<forall>s. is_ascii s \<longrightarrow> str_lower e s = ascii_lower s)"

text \<open>
  Occurrence of a keyword in a text ignoring the case of letters, said without any
  lowering: some contiguous part of the text has the characters of the keyword, each the
  same or the same letter in the other case.
\<close>

definition same_letter :: "char \<Rightarrow> char \<Rightarrow> bool" where
  "same_letter c d =
     (let m = (of_char c :: nat); n = (of_char d :: nat)
      in m = n \<or> (65 \<le> m \<and> m \<le> 90 \<and> n = m + 32) \<or> (65 \<le> n \<and> n \<le> 90 \<and> m = n + 32))"

definition occurs_ignoring_case :: "string \<Rightarrow> string \<Rightarrow> bool" where
  "occurs_ignoring_case kw s = (\<exists>u. sublist u s \<and> list_all2 same_letter kw u)"

definition matches_ignoring_case :: "string \<Rightarrow> link \<Rightarrow> bool" where
  "matches_ignoring_case kw l =
     (occurs_ignoring_case kw (link_text l) \<or> occurs_ignoring_case kw (href l))"

definition ascii_link :: "link \<Rightarrow> bool" where
  "ascii_link l = (is_ascii (link_text l) \<and> is_ascii (href l))"

text \<open>
  The match the code computes for any text: the lowered keyword occurs in the lowered
  visible text or in the lowered href.
\<close>

definition matches_lowered :: "env \<Rightarrow> string \<Rightarrow> link \<Rightarrow> bool" where
  "matches_lowered e kw l =
     (sublist (str_lower e kw) (str_lower e (link_text l)) \<or>
      sublist (str_lower e kw) (str_lower e (href l)))"

text \<open>
  The spec's words for the priority \<open>p\<close> of a link under a notion of match: the index
  of the first keyword of the list that matches the link, or the length of the list when
  none matches.
\<close>

definition priority_ok :: "(string \<Rightarrow> link \<Rightarrow> bool) \<Rightarrow> string list \<Rightarrow> link \<Rightarrow> nat \<Rightarrow> bool" where
  "priority_ok m kws l p =
     (p \<le> length kws \<and> (p < length kws \<longrightarrow> m (kws ! p) l) \<and>
      (\<forall>i < p. \<not> m (kws ! i) l))"

text \<open>
  The spec's words for \<^verbatim>\<open>_process_links\<close>: the pairs (priority, next) of a page, each
  href resolved against the page, in the order of the links; and the pairs before the first
  one whose node is the target.
\<close>

definition resolved :: "env \<Rightarrow> link list \<Rightarrow> node \<Rightarrow> entry list" where
  "resolved e links current =
     map (\<lambda>(priority, u). (priority, join e current u))
       (prioritize_by_keyword e links (keyword_list e))"

definition before_target :: "env \<Rightarrow> entry list \<Rightarrow> entry list" where
  "before_target e xs = takeWhile (\<lambda>(priority, n). n \<noteq> target e) xs"

text \<open>
  The end-to-end fixture: the start page links to A and B, the page of A links to the
  target, the page of B has no links, every other fetch fails; one worker.  The text is
  ASCII and needs no quoting.
\<close>

definition fixture :: env where
  "fixture =
     \<lparr>start = ''https://w.org/wiki/S'', target = ''https://w.org/wiki/T'',
      keyword_list = [], concurrent = 1,
      fetch = (\<lambda>n.
        if n = ''https://w.org/wiki/S''
          then Some [\<lparr>link_text = ''A'', href = ''/wiki/A''\<rparr>, \<lparr>link_text = ''B'', href = ''/wiki/B''\<rparr>]
        else if n = ''https://w.org/wiki/A''
          then Some [\<lparr>link_text = ''Target'', href = ''/wiki/T''\<rparr>]
        else if n = ''https://w.org/wiki/B'' then Some []
        else None),
      str_lower = ascii_lower,
      url_of = (\<lambda>h. h),
      join = (\<lambda>current u. ''https://w.org'' @ u),
      url_less = lexordp (\<lambda>a b. (of_char a :: nat) < of_char b),
      place = (\<lambda>v xs. xs @ [v]),
      sched = (\<lambda>c. 0)\<rparr>"

text \<open>A page that links to A, to the target and to B, in this order.\<close>

definition example_page :: "link list" where
  "example_page = [\<lparr>link_text = ''A'', href = ''/wiki/A''\<rparr>,
           \<lparr>link_text = ''Target'', href = ''/wiki/T''\<rparr>,
           \<lparr>link_text = ''B'', href = ''/wiki/B''\<rparr>]"

text \<open>
  The fixture with a URL constructor that quotes a space as yarl does, and a link whose
  href has a space.
\<close>

definition quoting :: env where
  "quoting = fixture\<lparr>url_of := (\<lambda>h. concat (map (\<lambda>c. if c = CHR '' '' then ''%20'' else [c]) h))\<rparr>"

definition spaced_links :: "link list" where
  "spaced_links = [\<lparr>link_text = ''Main Page'', href = ''/wiki/Main Page''\<rparr>]"

text \<open>A path of the graph: a non-empty list of nodes, each linked to the next.\<close>

fun is_path :: "graph \<Rightarrow> node list \<Rightarrow> bool" where
  "is_path g [] = False"
| "is_path g [x] = True"
| "is_path g (x # y # rest) = (y \<in> set (neighbors g x) \<and> is_path g (y # rest))"

definition connects :: "graph \<Rightarrow> node \<Rightarrow> node \<Rightarrow> node list \<Rightarrow> bool" where
  "connects g s t p = (is_path g p \<and> hd p = s \<and> last p = t)"

text \<open>The path recorded for a node in \<open>dist\<close>, and the invariant of the search loop.\<close>

definition path_of :: "dist \<Rightarrow> node \<Rightarrow> node list" where
  "path_of d n = flatten_arg (d n)"

definition is_Lst :: "nested \<Rightarrow> bool" where
  "is_Lst v = (case v of Lst items \<Rightarrow> True | Str s \<Rightarrow> False)"

definition bfs_inv :: "graph \<Rightarrow> node \<Rightarrow> dist \<Rightarrow> node list \<Rightarrow> bool" where
  "bfs_inv g s d q =
     (d s = Some (Lst [Str s]) \<and>
      (\<forall>n v. d n = Some v \<longrightarrow> is_Lst v \<and> connects g s n (flatten v)) \<and>
      set q \<subseteq> dom d \<and> distinct q \<and>
      (\<forall>n \<in> dom d - set q. \<forall>m \<in> set (neighbors g n).
         m \<in> dom d \<and> length (path_of d m) \<le> Suc (length (path_of d n))) \<and>
      sorted (map (\<lambda>n. length (path_of d n)) q) \<and>
      (\<forall>a \<in> set q. \<forall>b \<in> set q. length (path_of d b) \<le> Suc (length (path_of d a))) \<and>
      (\<forall>n \<in> dom d - set q. \<forall>m \<in> set q. length (path_of d n) \<le> length (path_of d m)))"

text \<open>The graph the crawl of the end-to-end fixture records.\<close>

definition example_graph :: graph where
  "example_graph = [(''S'', [''A'', ''B'']), (''A'', [''T''])]"

text \<open>
  Variants of the fixture: no page can be fetched and the start is the target; no page
  can be fetched; the start page has no links; the page of A links back to the start.
\<close>

definition unfetchable_same :: env where
  "unfetchable_same = fixture\<lparr>target := start fixture, fetch := (\<lambda>n. None)\<rparr>"

definition unfetchable :: env where
  "unfetchable = fixture\<lparr>fetch := (\<lambda>n. None)\<rparr>"

definition dead_end :: env where
  "dead_end = fixture\<lparr>fetch := (\<lambda>n. if n = start fixture then Some [] else None)\<rparr>"

definition back_link :: env where
  "back_link = fixture\<lparr>fetch := (\<lambda>n.
     if n = ''https://w.org/wiki/S'' then Some [\<lparr>link_text = ''A'', href = ''/wiki/A''\<rparr>]
     else if n = ''https://w.org/wiki/A'' then Some [\<lparr>link_text = ''Start'', href = ''/wiki/S''\<rparr>]
     else None)\<rparr>"






text \<open>A run of the pool: the workers with the given indices are resumed one after the other.\<close>

definition fires :: "env \<Rightarrow> nat list \<Rightarrow> config \<Rightarrow> config option" where
  "fires e is c = fold (\<lambda>i oc. Option.bind oc (fire e i)) is (Some c)"

text \<open>
  One worker; the start page links to B and C, the page of B has no links, the page of C
  links to B.
\<close>

definition empty_page :: env where
  "empty_page = fixture\<lparr>fetch := (\<lambda>n.
     if n = ''https://w.org/wiki/S''
       then Some [\<lparr>link_text = ''B'', href = ''/wiki/B''\<rparr>, \<lparr>link_text = ''C'', href = ''/wiki/C''\<rparr>]
     else if n = ''https://w.org/wiki/B'' then Some []
     else if n = ''https://w.org/wiki/C'' then Some [\<lparr>link_text = ''B'', href = ''/wiki/B''\<rparr>]
     else None)\<rparr>"

section \<open>Properties\<close>

subsection \<open>Link prioritisation\<close>

lemma first_match_None:
  "first_match e txt h i ws = None \<longleftrightarrow>
     (\<forall>w \<in> set ws. \<not> (sublist w txt \<or> sublist w (str_lower e h)))"
  by (induction ws arbitrary: i) auto

lemma first_match_Some:
  "first_match e txt h i ws = Some k \<Longrightarrow>
     i \<le> k \<and> k < i + length ws \<and>
     (sublist (ws ! (k - i)) txt \<or> sublist (ws ! (k - i)) (str_lower e h)) \<and>
     (\<forall>j < k - i. \<not> (sublist (ws ! j) txt \<or> sublist (ws ! j) (str_lower e h)))"
proof (induction ws arbitrary: i)
  case Nil
  then show ?case by simp
next
  case (Cons w ws)
  show ?case
  proof (cases "sublist w txt \<or> sublist w (str_lower e h)")
    case True
    with Cons.prems have "k = i" by simp
    with True show ?thesis by simp
  next
    case False
    with Cons.prems have fm: "first_match e txt h (Suc i) ws = Some k" by simp
    from Cons.IH[OF fm] have ih: "Suc i \<le> k" "k < Suc i + length ws"
      "sublist (ws ! (k - Suc i)) txt \<or> sublist (ws ! (k - Suc i)) (str_lower e h)"
      "\<forall>j < k - Suc i. \<not> (sublist (ws ! j) txt \<or> sublist (ws ! j) (str_lower e h))"
      by auto
    from ih(1) have ki: "k - i = Suc (k - Suc i)" by simp
    have "\<forall>j < k - i. \<not> (sublist ((w # ws) ! j) txt \<or> sublist ((w # ws) ! j) (str_lower e h))"
    proof (intro allI impI)
      fix j assume "j < k - i"
      then show "\<not> (sublist ((w # ws) ! j) txt \<or> sublist ((w # ws) ! j) (str_lower e h))"
        using False ih(4) ki by (cases j) auto
    qed
    then show ?thesis using ih ki by simp
  qed
qed

lemma priority_of_link:
  "priority_ok (matches_lowered e) kws l
     (case first_match e (str_lower e (link_text l)) (href l) 0 (map (str_lower e) kws) of
        Some index \<Rightarrow> index | None \<Rightarrow> length kws)"
proof (cases "first_match e (str_lower e (link_text l)) (href l) 0 (map (str_lower e) kws)")
  case None
  then have "\<forall>w \<in> set (map (str_lower e) kws).
      \<not> (sublist w (str_lower e (link_text l)) \<or> sublist w (str_lower e (href l)))"
    by (simp only: first_match_None)
  then have "\<forall>i < length kws. \<not> matches_lowered e (kws ! i) l"
    by (auto simp: matches_lowered_def)
  with None show ?thesis by (simp add: priority_ok_def)
next
  case (Some k)
  from first_match_Some[OF Some] show ?thesis
    using Some by (auto simp: priority_ok_def matches_lowered_def)
qed

lemma prioritize_nth:
  "j < length links \<Longrightarrow>
     priority_ok (matches_lowered e) kws (links ! j)
       (fst (prioritize_by_keyword e links kws ! j)) \<and>
     snd (prioritize_by_keyword e links kws ! j) = url_of e (href (links ! j))"
proof (induction links arbitrary: j)
  case Nil
  then show ?case by simp
next
  case (Cons l links)
  show ?case
  proof (cases j)
    case 0
    then show ?thesis using priority_of_link[of e kws l] by (simp split: option.splits)
  next
    case (Suc j')
    with Cons show ?thesis by simp
  qed
qed

lemma prioritize_length: "length (prioritize_by_keyword e links kws) = length links"
  by (induction links) auto

lemma prioritize_no_keywords:
  "prioritize_by_keyword e links [] = map (\<lambda>l. (0, url_of e (href l))) links"
  by (induction links) auto

lemma of_char_ascii_lower_char:
  "(of_char (ascii_lower_char c) :: nat) =
     (if 65 \<le> (of_char c :: nat) \<and> (of_char c :: nat) \<le> 90 then of_char c + 32 else of_char c)"
  by (simp add: ascii_lower_char_def Let_def)

lemma ascii_lower_char_eq: "ascii_lower_char c = ascii_lower_char d \<longleftrightarrow> same_letter c d"
proof -
  have "ascii_lower_char c = ascii_lower_char d \<longleftrightarrow>
      (of_char (ascii_lower_char c) :: nat) = of_char (ascii_lower_char d)"
    by simp
  also have "\<dots> \<longleftrightarrow> same_letter c d"
    unfolding of_char_ascii_lower_char same_letter_def Let_def by auto
  finally show ?thesis .
qed

lemma map_lower_eq:
  "map ascii_lower_char kw = map ascii_lower_char u \<longleftrightarrow> list_all2 same_letter kw u"
proof (induction kw arbitrary: u)
  case Nil
  then show ?case by auto
next
  case (Cons k kw)
  then show ?case by (cases u) (auto simp: ascii_lower_char_eq)
qed

lemma sublist_lower_iff:
  "sublist (ascii_lower kw) (ascii_lower s) \<longleftrightarrow> occurs_ignoring_case kw s"
proof
  assume "sublist (ascii_lower kw) (ascii_lower s)"
  then obtain ps ss where eq: "map ascii_lower_char s = ps @ (map ascii_lower_char kw @ ss)"
    by (auto simp: sublist_def ascii_lower_def)
  from eq obtain a b where ab: "s = a @ b" "map ascii_lower_char kw @ ss = map ascii_lower_char b"
    unfolding map_eq_append_conv by blast
  from ab(2) obtain u c where uc: "b = u @ c" "map ascii_lower_char kw = map ascii_lower_char u"
    unfolding append_eq_map_conv by blast
  from ab(1) uc(1) have "sublist u s" by (auto simp: sublist_def)
  moreover from uc(2) have "list_all2 same_letter kw u" by (simp only: map_lower_eq)
  ultimately show "occurs_ignoring_case kw s" by (auto simp: occurs_ignoring_case_def)
next
  assume "occurs_ignoring_case kw s"
  then obtain u where u: "sublist u s" "list_all2 same_letter kw u"
    by (auto simp: occurs_ignoring_case_def)
  from u(1) obtain ps ss where "s = ps @ u @ ss" by (auto simp: sublist_def)
  then have "ascii_lower s = ascii_lower ps @ map ascii_lower_char u @ ascii_lower ss"
    by (simp add: ascii_lower_def)
  moreover from u(2) have "map ascii_lower_char u = ascii_lower kw"
    unfolding ascii_lower_def by (simp only: map_lower_eq[symmetric])
  ultimately show "sublist (ascii_lower kw) (ascii_lower s)"
    by (auto simp: sublist_def)
qed

lemma matches_ascii:
  "lower_ok e \<Longrightarrow> is_ascii kw \<Longrightarrow> ascii_link l \<Longrightarrow>
   matches_lowered e kw l \<longleftrightarrow> matches_ignoring_case kw l"
  by (simp add: matches_lowered_def matches_ignoring_case_def lower_ok_def ascii_link_def
      sublist_lower_iff)

lemma priority_ok_ascii:
  assumes "lower_ok e" and "\<forall>k \<in> set kws. is_ascii k" and "ascii_link l"
    and "priority_ok (matches_lowered e) kws l p"
  shows "priority_ok matches_ignoring_case kws l p"
proof -
  have m: "matches_lowered e (kws ! i) l \<longleftrightarrow> matches_ignoring_case (kws ! i) l"
    if "i < length kws" for i
    using that assms(2) by (intro matches_ascii[OF assms(1) _ assms(3)]) simp
  from assms(4) have p: "p \<le> length kws" by (simp add: priority_ok_def)
  then have "i < p \<Longrightarrow> i < length kws" for i by simp
  with assms(4) m show ?thesis unfolding priority_ok_def by auto
qed

lemma first_match_cong:
  "str_lower e h = str_lower e' h \<Longrightarrow> first_match e txt h i ws = first_match e' txt h i ws"
  by (induction ws arbitrary: i) auto

lemma prioritize_fst_cong:
  assumes "\<And>k. k \<in> set kws \<Longrightarrow> str_lower e k = str_lower e' k"
    and "\<And>l. l \<in> set links \<Longrightarrow> str_lower e (link_text l) = str_lower e' (link_text l)"
    and "\<And>l. l \<in> set links \<Longrightarrow> str_lower e (href l) = str_lower e' (href l)"
  shows "map fst (prioritize_by_keyword e links kws) = map fst (prioritize_by_keyword e' links kws)"
  using assms(2,3)
proof (induction links)
  case Nil
  then show ?case by simp
next
  case (Cons l links)
  have k: "map (str_lower e) kws = map (str_lower e') kws" using assms(1) by simp
  have t: "str_lower e (link_text l) = str_lower e' (link_text l)" using Cons.prems(1) by simp
  have h: "str_lower e (href l) = str_lower e' (href l)" using Cons.prems(2) by simp
  have "map fst (prioritize_by_keyword e links kws) = map fst (prioritize_by_keyword e' links kws)"
    using Cons.prems by (intro Cons.IH) simp_all
  then show ?case
    by (simp add: k t first_match_cong[OF h] split: option.splits)
qed

lemma lower_ok_fixture: "lower_ok fixture"
  by (simp add: lower_ok_def fixture_def)

lemma prioritize_example_fixture:
  "map fst (prioritize_by_keyword fixture example_links [''physics'', ''math'']) = [2, 0, 2]"
  by code_simp

lemma prioritize_example:
  assumes "lower_ok e"
  shows "map fst (prioritize_by_keyword e example_links [''physics'', ''math'']) = [2, 0, 2]"
proof -
  have a: "str_lower e s = str_lower fixture s" if "is_ascii s" for s
    using that assms lower_ok_fixture by (simp add: lower_ok_def)
  have "map fst (prioritize_by_keyword e example_links [''physics'', ''math'']) =
        map fst (prioritize_by_keyword fixture example_links [''physics'', ''math''])"
    by (rule prioritize_fst_cong; rule a) (auto simp: example_links_def is_ascii_def)
  then show ?thesis by (simp only: prioritize_example_fixture)
qed

text \<open>
  C9 as stated fails in its second component: the pair does not carry the href but the
  URL built from it, and yarl quotes the space of this href.
\<close>

theorem prioritize_by_keyword_spec_counterexample:
  "prioritize_by_keyword quoting spaced_links [] = [(0, ''/wiki/Main%20Page'')] \<and>
   href (spaced_links ! 0) = ''/wiki/Main Page'' \<and>
   snd (prioritize_by_keyword quoting spaced_links [] ! 0) \<noteq> href (spaced_links ! 0)"
  by code_simp

text \<open>
  C9, amended.  \<^verbatim>\<open>_prioritize_by_keyword\<close> yields one pair per link, in the order of the
  links; the second component is the URL built from the link's href and the first is the
  index of the first keyword whose lowered form occurs in the lowered visible text or in
  the lowered href, or the length of the keyword list when there is none.  Without
  keywords every priority is 0.  Where lowering is Python's, on ASCII keywords and links
  this is the first keyword that occurs ignoring the case of letters, and the keywords
  physics, math give the three example links the priorities 2, 0, 2.
\<close>

theorem prioritize_by_keyword_spec:
  "length (prioritize_by_keyword e links kws) = length links \<and>
   (\<forall>j < length links.
      snd (prioritize_by_keyword e links kws ! j) = url_of e (href (links ! j)) \<and>
      priority_ok (matches_lowered e) kws (links ! j)
        (fst (prioritize_by_keyword e links kws ! j))) \<and>
   prioritize_by_keyword e links [] = map (\<lambda>l. (0, url_of e (href l))) links \<and>
   (lower_ok e \<longrightarrow> (\<forall>k \<in> set kws. is_ascii k) \<longrightarrow>
      (\<forall>j < length links. ascii_link (links ! j) \<longrightarrow>
         priority_ok matches_ignoring_case kws (links ! j)
           (fst (prioritize_by_keyword e links kws ! j)))) \<and>
   (lower_ok e \<longrightarrow>
      map fst (prioritize_by_keyword e example_links [''physics'', ''math'']) = [2, 0, 2])"
  using prioritize_nth[of _ links e kws] priority_ok_ascii[of e kws]
  by (simp add: prioritize_length prioritize_no_keywords prioritize_example)

theorem prioritize_by_keyword_spec_witness:
  "priority_ok matches_ignoring_case [''physics'', ''math''] (example_links ! 1) 0 \<and>
   priority_ok matches_ignoring_case [''physics'', ''math''] (example_links ! 0) 2 \<and>
   snd (prioritize_by_keyword fixture example_links [''physics'', ''math''] ! 1) = ''/wiki/Phys''"
proof -
  let ?kws = "[''physics'', ''math'']"
  have l: "(1::nat) < length example_links" "(0::nat) < length example_links"
    by (simp_all add: example_links_def)
  have k: "\<forall>k \<in> set ?kws. is_ascii k" by (simp add: is_ascii_def)
  have a: "ascii_link (example_links ! 1)" "ascii_link (example_links ! 0)"
    by (auto simp: example_links_def ascii_link_def is_ascii_def)
  have p: "fst (prioritize_by_keyword fixture example_links ?kws ! 1) = 0"
     "fst (prioritize_by_keyword fixture example_links ?kws ! 0) = 2"
    by code_simp+
  have u: "url_of fixture (href (example_links ! 1)) = ''/wiki/Phys''"
    by (simp add: fixture_def example_links_def)
  from prioritize_by_keyword_spec[of fixture example_links ?kws] lower_ok_fixture k l a p u
  show ?thesis by metis
qed

subsection \<open>The graph dictionary\<close>

lemma map_of_assign:
  "map_of (assign k xs g) k' = (if k' = k \<and> map_of g k \<noteq> None then Some xs else map_of g k')"
  by (induction g) auto

lemma map_of_getitem:
  "map_of (fst (getitem g k)) k' = (if k' = k then Some (neighbors g k) else map_of g k')"
  by (auto simp: getitem_def neighbors_def map_add_def split: option.splits)

lemma snd_getitem: "snd (getitem g k) = neighbors g k"
  by (simp add: getitem_def neighbors_def split: option.splits)

lemma map_of_graph_add:
  "map_of (graph_add e k v g) k' =
     (if k' = k then Some (set_add e v (neighbors g k)) else map_of g k')"
proof -
  have "graph_add e k v g = assign k (set_add e v (neighbors g k)) (fst (getitem g k))"
    by (simp add: graph_add_def case_prod_unfold snd_getitem)
  then show ?thesis by (simp add: map_of_assign map_of_getitem)
qed

lemma neighbors_graph_add:
  "neighbors (graph_add e k v g) k' =
     (if k' = k then set_add e v (neighbors g k) else neighbors g k')"
  by (simp add: neighbors_def map_of_graph_add)

lemma has_entry_graph_add: "has_entry (graph_add e k v g) k' \<longleftrightarrow> k' = k \<or> has_entry g k'"
  by (simp add: has_entry_def map_of_graph_add)

lemma set_set_add: "place_ok e \<Longrightarrow> set (set_add e v xs) = insert v (set xs)"
  by (auto simp: set_add_def place_ok_def)

lemma edges_graph_add: "place_ok e \<Longrightarrow> edges (graph_add e k v g) = insert (k, v) (edges g)"
  by (auto simp: edges_def neighbors_graph_add set_set_add split: if_splits)

subsection \<open>Processing the links of a page\<close>

lemma process_loop_queue:
  "queue (process_loop e cur ps st) =
     queue st @ takeWhile (\<lambda>(p, n). n \<noteq> target e) (map (\<lambda>(p, h). (p, join e cur h)) ps)"
proof (induction ps arbitrary: st)
  case Nil
  then show ?case by simp
next
  case (Cons a ps)
  obtain p h where a: "a = (p, h)" by (cases a)
  show ?case by (simp add: a Let_def Cons.IH queue_put_def)
qed

lemma process_loop_found:
  "target_found (process_loop e cur ps st) \<longleftrightarrow>
     target_found st \<or> target e \<in> snd ` set (map (\<lambda>(p, h). (p, join e cur h)) ps)"
proof (induction ps arbitrary: st)
  case Nil
  then show ?case by simp
next
  case (Cons a ps)
  obtain p h where a: "a = (p, h)" by (cases a)
  show ?case
  proof (cases "join e cur h = target e")
    case True
    then show ?thesis by (simp add: a Let_def)
  next
    case False
    then have "target e \<noteq> join e cur h" by auto
    then show ?thesis using False by (simp add: a Let_def Cons.IH)
  qed
qed

lemma process_loop_edges:
  "place_ok e \<Longrightarrow>
   edges (graph (process_loop e cur ps st)) =
     edges (graph st) \<union>
     {cur} \<times> snd ` set (take (Suc (length (takeWhile (\<lambda>(p, n). n \<noteq> target e)
                                            (map (\<lambda>(p, h). (p, join e cur h)) ps))))
                           (map (\<lambda>(p, h). (p, join e cur h)) ps))"
proof (induction ps arbitrary: st)
  case Nil
  then show ?case by simp
next
  case (Cons a ps)
  obtain p h where a: "a = (p, h)" by (cases a)
  show ?case
  proof (cases "join e cur h = target e")
    case True
    then show ?thesis using Cons.prems by (simp add: a Let_def edges_graph_add)
  next
    case False
    then show ?thesis using Cons.prems
      by (simp add: a Let_def Cons.IH[OF Cons.prems] edges_graph_add)
  qed
qed

lemma process_loop_has_entry:
  "has_entry (graph (process_loop e cur ps st)) k \<longleftrightarrow>
     has_entry (graph st) k \<or> (k = cur \<and> ps \<noteq> [])"
proof (induction ps arbitrary: st)
  case Nil
  then show ?case by simp
next
  case (Cons a ps)
  obtain p h where a: "a = (p, h)" by (cases a)
  show ?case by (auto simp add: a Let_def Cons.IH has_entry_graph_add)
qed

lemma prioritize_hrefs:
  "map snd (prioritize_by_keyword e links kws) = map (\<lambda>l. url_of e (href l)) links"
  by (induction links) (auto split: option.splits)

lemma prioritize_Nil: "prioritize_by_keyword e links kws = [] \<longleftrightarrow> links = []"
  by (cases links) auto

text \<open>
  C3.  \<^verbatim>\<open>_process_links\<close> takes the links in input order and resolves the URL of
  each href against the current page.  It records the edge from the current page to every resolved
  node up to and including the first one that equals the target, and to no later one; it
  enqueues the pairs before that one, so never the target; the signal is set exactly when
  the target is among the resolved nodes (or was set before).
\<close>

theorem process_links_spec:
  assumes "place_ok e"
  shows "map snd (resolved e links current) =
      map (\<lambda>l. join e current (url_of e (href l))) links \<and>
    queue (process_links e links current st) =
      queue st @ before_target e (resolved e links current) \<and>
    target e \<notin> snd ` set (before_target e (resolved e links current)) \<and>
    edges (graph (process_links e links current st)) =
      edges (graph st) \<union>
      {current} \<times> snd ` set (take (Suc (length (before_target e (resolved e links current))))
                                 (resolved e links current)) \<and>
    (target_found (process_links e links current st) \<longleftrightarrow>
       target_found st \<or> target e \<in> snd ` set (resolved e links current))"
proof -
  have "map snd (resolved e links current) =
          map (join e current) (map snd (prioritize_by_keyword e links (keyword_list e)))"
    by (simp add: resolved_def case_prod_unfold)
  then have 1: "map snd (resolved e links current) =
      map (\<lambda>l. join e current (url_of e (href l))) links"
    by (simp add: prioritize_hrefs)
  have 2: "target e \<notin> snd ` set (before_target e (resolved e links current))"
    unfolding before_target_def by (auto dest: set_takeWhileD)
  show ?thesis
    using 1 2 process_loop_edges[OF assms]
    by (simp add: process_links_def resolved_def before_target_def
        process_loop_queue process_loop_found)
qed

lemma place_ok_fixture: "place_ok fixture"
  by (simp add: place_ok_def fixture_def)

theorem process_links_spec_witness:
  "place_ok fixture \<and>
   queue (process_links fixture example_page (start fixture) init_crawler) = [(0, ''https://w.org/wiki/A'')] \<and>
   edges (graph (process_links fixture example_page (start fixture) init_crawler)) =
     {(''https://w.org/wiki/S'', ''https://w.org/wiki/A''),
      (''https://w.org/wiki/S'', ''https://w.org/wiki/T'')} \<and>
   target_found (process_links fixture example_page (start fixture) init_crawler)"
proof -
  have r: "resolved fixture example_page (start fixture) =
      [(0, ''https://w.org/wiki/A''), (0, ''https://w.org/wiki/T''), (0, ''https://w.org/wiki/B'')]"
    by code_simp
  have t: "target fixture = ''https://w.org/wiki/T''" "start fixture = ''https://w.org/wiki/S''"
    by (simp_all add: fixture_def)
  have b: "before_target fixture (resolved fixture example_page (start fixture)) = [(0, ''https://w.org/wiki/A'')]"
    unfolding r by (simp add: before_target_def t)
  have e: "edges (graph init_crawler) = {}"
    by (simp add: init_crawler_def edges_def neighbors_def)
  have q: "queue init_crawler = []" "\<not> target_found init_crawler"
    by (simp_all add: init_crawler_def)
  show ?thesis
    using process_links_spec[OF place_ok_fixture, of example_page "start fixture" init_crawler]
    unfolding b unfolding r
    by (auto simp add: place_ok_fixture e q t)
qed

subsection \<open>Path reconstruction\<close>

lemma flatten_pair: "is_Lst p \<Longrightarrow> flatten (Lst [p, Str n]) = flatten p @ [n]"
  by (cases p) (simp_all add: is_Lst_def)

lemma is_path_snoc:
  "is_path g (p @ [x]) \<longleftrightarrow> p = [] \<or> (is_path g p \<and> x \<in> set (neighbors g (last p)))"
proof (induction g p rule: is_path.induct)
  case (1 g)
  then show ?case by simp
next
  case (2 g y)
  then show ?case by simp
next
  case (3 g a b rest)
  then show ?case by auto
qed

lemma connects_snoc:
  "connects g s n p \<Longrightarrow> m \<in> set (neighbors g n) \<Longrightarrow> connects g s m (p @ [m])"
proof -
  assume c: "connects g s n p" and m: "m \<in> set (neighbors g n)"
  from c have p: "is_path g p" "p \<noteq> []" "hd p = s" "last p = n"
    by (auto simp: connects_def)
  from p m have "is_path g (p @ [m])" by (simp only: is_path_snoc) simp
  with p show ?thesis by (simp add: connects_def)
qed

lemma neighbors_getitem: "neighbors (fst (getitem g k)) k' = neighbors g k'"
  by (simp add: neighbors_def map_of_getitem split: option.splits)

lemma has_entry_getitem: "has_entry (fst (getitem g k)) k' \<longleftrightarrow> k' = k \<or> has_entry g k'"
  by (simp add: has_entry_def map_of_getitem)

lemma is_path_cong: "(\<And>k. neighbors g' k = neighbors g k) \<Longrightarrow> is_path g' p = is_path g p"
  by (induction g p rule: is_path.induct) auto

lemma visit_effect:
  "d at = Some p \<Longrightarrow>
   \<exists>new. visit at ns d q =
            Inr (\<lambda>n. if n \<in> set new then Some (Lst [p, Str n]) else d n, q @ new) \<and>
         distinct new \<and> set new = set ns - dom d"
proof (induction ns arbitrary: d q)
  case Nil
  then show ?case by simp
next
  case (Cons n ns)
  show ?case
  proof (cases "d n \<noteq> None")
    case True
    from Cons.IH[of d q, OF Cons.prems] obtain new where
      v: "visit at ns d q = Inr (\<lambda>n. if n \<in> set new then Some (Lst [p, Str n]) else d n, q @ new)"
      and dn: "distinct new" "set new = set ns - dom d" by blast
    from True have "n \<in> dom d" by (simp add: domIff)
    then have "set new = set (n # ns) - dom d" using dn by auto
    with v dn True show ?thesis by auto
  next
    case False
    then have nd: "n \<notin> dom d" by (simp add: domIff)
    with Cons.prems have "at \<noteq> n" by auto
    let ?d1 = "d(n \<mapsto> Lst [p, Str n])"
    from \<open>at \<noteq> n\<close> Cons.prems have "?d1 at = Some p" by simp
    from Cons.IH[of ?d1 "q @ [n]", OF this] obtain new where
      v: "visit at ns ?d1 (q @ [n]) =
            Inr (\<lambda>m. if m \<in> set new then Some (Lst [p, Str m]) else ?d1 m, (q @ [n]) @ new)"
      and dn: "distinct new" "set new = set ns - dom ?d1" by blast
    have 1: "(\<lambda>m. if m \<in> set new then Some (Lst [p, Str m]) else ?d1 m) =
             (\<lambda>m. if m \<in> set (n # new) then Some (Lst [p, Str m]) else d m)"
      by (auto simp: fun_eq_iff)
    have 2: "distinct (n # new)" using dn by auto
    have 3: "set (n # new) = set (n # ns) - dom d" using dn nd by auto
    have "visit at (n # ns) d q =
            Inr (\<lambda>m. if m \<in> set (n # new) then Some (Lst [p, Str m]) else d m, q @ (n # new))"
      using False Cons.prems v unfolding 1 by simp
    with 2 3 show ?thesis by blast
  qed
qed

lemma sorted_map_const: "(\<And>x. x \<in> set xs \<Longrightarrow> f x = (c::nat)) \<Longrightarrow> sorted (map f xs)"
  by (induction xs) auto

lemma bfs_inv_step:
  assumes inv: "bfs_inv g s d (at # q)"
    and dat: "d at = Some p"
    and new: "distinct new" "set new = set (neighbors g at) - dom d"
  shows "bfs_inv g s (\<lambda>n. if n \<in> set new then Some (Lst [p, Str n]) else d n) (q @ new)"
proof -
  let ?d = "\<lambda>n. if n \<in> set new then Some (Lst [p, Str n]) else d n"
  let ?len = "\<lambda>n. length (path_of d n)"
  let ?len' = "\<lambda>n. length (path_of ?d n)"
  from inv have i1: "d s = Some (Lst [Str s])"
    unfolding bfs_inv_def by blast
  from inv have i2: "\<And>n v. d n = Some v \<Longrightarrow> is_Lst v \<and> connects g s n (flatten v)"
    unfolding bfs_inv_def by blast
  from inv have i3: "set (at # q) \<subseteq> dom d" and i7: "distinct (at # q)"
    unfolding bfs_inv_def by blast+
  from inv have i4: "\<And>n m. n \<in> dom d \<Longrightarrow> n \<notin> set (at # q) \<Longrightarrow> m \<in> set (neighbors g n) \<Longrightarrow>
      m \<in> dom d \<and> ?len m \<le> Suc (?len n)"
    unfolding bfs_inv_def by blast
  from inv have i5: "sorted (map ?len (at # q))"
    unfolding bfs_inv_def by blast
  from inv have i5b: "\<And>a b. a \<in> set (at # q) \<Longrightarrow> b \<in> set (at # q) \<Longrightarrow> ?len b \<le> Suc (?len a)"
    unfolding bfs_inv_def by blast
  from inv have i6: "\<And>n m. n \<in> dom d \<Longrightarrow> n \<notin> set (at # q) \<Longrightarrow> m \<in> set (at # q) \<Longrightarrow>
      ?len n \<le> ?len m"
    unfolding bfs_inv_def by blast
  have disj: "\<And>n. n \<in> set new \<Longrightarrow> n \<notin> dom d" using new by auto
  have old: "\<And>n. n \<in> dom d \<Longrightarrow> ?d n = d n" using disj by auto
  have lenold: "\<And>n. n \<in> dom d \<Longrightarrow> ?len' n = ?len n" using old by (simp add: path_of_def)
  have pl: "is_Lst p" "connects g s at (flatten p)" using i2[OF dat] by auto
  have pathnew: "\<And>n. n \<in> set new \<Longrightarrow> path_of ?d n = flatten p @ [n]"
    by (simp add: path_of_def flatten_arg_def flatten_pair[OF pl(1)] del: flatten.simps)
  have lenat: "?len at = length (flatten p)" by (simp add: path_of_def flatten_arg_def dat)
  have lennew: "\<And>n. n \<in> set new \<Longrightarrow> ?len' n = Suc (?len at)" using pathnew lenat by simp
  have dom': "dom ?d = dom d \<union> set new" by (auto simp: dom_def)
  have atd: "at \<in> dom d" "at \<notin> set q" "set q \<subseteq> dom d" using i3 i7 by auto
  have atle: "\<And>a. a \<in> set q \<Longrightarrow> ?len at \<le> ?len a" using i5 by auto
  have qle: "\<And>a. a \<in> set q \<Longrightarrow> ?len a \<le> Suc (?len at)" using i5b[of at] by simp
  have g1: "?d s = Some (Lst [Str s])" using i1 disj[of s] by (auto simp: domIff)
  have g2: "\<forall>n v. ?d n = Some v \<longrightarrow> is_Lst v \<and> connects g s n (flatten v)"
  proof (intro allI impI)
    fix n v assume a: "?d n = Some v"
    show "is_Lst v \<and> connects g s n (flatten v)"
    proof (cases "n \<in> set new")
      case True
      then have v: "v = Lst [p, Str n]" using a by simp
      from True new have "n \<in> set (neighbors g at)" by auto
      from connects_snoc[OF pl(2) this] show ?thesis
        by (simp add: v is_Lst_def flatten_pair[OF pl(1)] del: flatten.simps)
    next
      case False then show ?thesis using a i2 by simp
    qed
  qed
  have g3: "set (q @ new) \<subseteq> dom ?d" using atd unfolding dom' by auto
  have g7: "distinct (q @ new)" using i7 new(1) disj atd by auto
  have g4: "\<forall>n \<in> dom ?d - set (q @ new). \<forall>m \<in> set (neighbors g n).
      m \<in> dom ?d \<and> ?len' m \<le> Suc (?len' n)"
  proof (intro ballI)
    fix n m assume n: "n \<in> dom ?d - set (q @ new)" and m: "m \<in> set (neighbors g n)"
    from n have nd: "n \<in> dom d" "n \<notin> set q" unfolding dom' by auto
    show "m \<in> dom ?d \<and> ?len' m \<le> Suc (?len' n)"
    proof (cases "n = at")
      case True
      show ?thesis
      proof (cases "m \<in> dom d")
        case md: True
        have "?len m \<le> Suc (?len at)"
        proof (cases "m \<in> set (at # q)")
          case True then show ?thesis using i5b[of at m] by simp
        next
          case False from i6[OF md False, of at] show ?thesis by simp
        qed
        moreover have "m \<in> dom ?d" using md unfolding dom' by simp
        ultimately show ?thesis using lenold[OF md] lenold[OF atd(1)] True by simp
      next
        case False
        with m True new have mn: "m \<in> set new" by auto
        then have "m \<in> dom ?d" unfolding dom' by simp
        then show ?thesis using lennew[OF mn] lenold[OF atd(1)] True by simp
      qed
    next
      case False
      with nd have na: "n \<notin> set (at # q)" by simp
      from i4[OF nd(1) na m] have "m \<in> dom d" "?len m \<le> Suc (?len n)" by auto
      moreover then have "m \<in> dom ?d" unfolding dom' by simp
      ultimately show ?thesis using lenold[of m] lenold[OF nd(1)] by simp
    qed
  qed
  have lq: "\<And>a. a \<in> set q \<Longrightarrow> ?len' a = ?len a" using lenold atd by auto
  have g5: "sorted (map ?len' (q @ new))"
  proof -
    have mq: "map ?len' q = map ?len q" by (rule map_cong[OF refl]) (rule lq)
    have sq: "sorted (map ?len q)" using i5 by simp
    have a: "sorted (map ?len' q)" unfolding mq by (rule sq)
    have b: "sorted (map ?len' new)" using lennew by (rule sorted_map_const)
    have c: "\<forall>x \<in> set q. \<forall>y \<in> set new. ?len' x \<le> ?len' y"
      using lq lennew qle by simp
    show ?thesis unfolding map_append sorted_append using a b c by auto
  qed
  have g5b: "\<forall>a \<in> set (q @ new). \<forall>b \<in> set (q @ new). ?len' b \<le> Suc (?len' a)"
  proof (intro ballI)
    fix a b assume a: "a \<in> set (q @ new)" and b: "b \<in> set (q @ new)"
    have la: "?len at \<le> ?len' a" using a lq[of a] atle[of a] lennew[of a] by auto
    have lb: "?len' b \<le> Suc (?len at)" using b lq[of b] qle[of b] lennew[of b] by auto
    from la lb show "?len' b \<le> Suc (?len' a)" by linarith
  qed
  have g6: "\<forall>n \<in> dom ?d - set (q @ new). \<forall>m \<in> set (q @ new). ?len' n \<le> ?len' m"
  proof (intro ballI)
    fix n m assume n: "n \<in> dom ?d - set (q @ new)" and m: "m \<in> set (q @ new)"
    from n have nd: "n \<in> dom d" "n \<notin> set q" unfolding dom' by auto
    have ln: "?len n \<le> ?len at"
    proof (cases "n = at")
      case True then show ?thesis by simp
    next
      case False
      with nd have "n \<notin> set (at # q)" by simp
      from i6[OF nd(1) this, of at] show ?thesis by simp
    qed
    have lm: "?len at \<le> ?len' m" using m lq[of m] atle[of m] lennew[of m] by auto
    from ln lm lenold[OF nd(1)] show "?len' n \<le> ?len' m" by linarith
  qed
  show ?thesis
    unfolding bfs_inv_def using g1 g2 g3 g7 g4 g5 g5b g6 by blast
qed

lemma bfs_run:
  "bfs_inv g0 s d q \<Longrightarrow> (\<And>k. neighbors g k = neighbors g0 k) \<Longrightarrow>
   \<exists>g' d'. bfs g d q = Inr (g', d') \<and> bfs_inv g0 s d' [] \<and>
     (\<forall>k. neighbors g' k = neighbors g0 k) \<and>
     (\<forall>n \<in> dom d. d' n = d n) \<and>
     (\<forall>k. has_entry g' k \<longleftrightarrow> has_entry g k \<or> k \<in> set q \<or> k \<in> dom d' - dom d)"
proof (induction g d q rule: bfs.induct)
  case (1 g d)
  then show ?case by simp
next
  case (2 g d at q)
  let ?g1 = "fst (getitem g at)"
  let ?nbrs = "snd (getitem g at)"
  have nb: "?nbrs = neighbors g0 at" using "2.prems"(2) by (simp add: snd_getitem)
  have ng1: "\<And>k. neighbors ?g1 k = neighbors g0 k"
    using "2.prems"(2) by (simp add: neighbors_getitem)
  from "2.prems"(1) have "at \<in> dom d" unfolding bfs_inv_def by auto
  then obtain p where dat: "d at = Some p" by auto
  from visit_effect[where d=d and at=at and p=p and ns="?nbrs" and q=q, OF dat] obtain new where
    v: "visit at ?nbrs d q =
          Inr (\<lambda>n. if n \<in> set new then Some (Lst [p, Str n]) else d n, q @ new)"
    and dn: "distinct new" "set new = set ?nbrs - dom d" by blast
  let ?d1 = "\<lambda>n. if n \<in> set new then Some (Lst [p, Str n]) else d n"
  from dn nb have dn': "set new = set (neighbors g0 at) - dom d" by simp
  have inv1: "bfs_inv g0 s ?d1 (q @ new)"
    by (rule bfs_inv_step[OF "2.prems"(1) dat dn(1) dn'])
  have gi: "(?g1, ?nbrs) = getitem g at" by simp
  from "2.IH"[OF gi v refl inv1 ng1] obtain g' d' where
    r: "bfs ?g1 ?d1 (q @ new) = Inr (g', d')" and inv': "bfs_inv g0 s d' []"
    and n': "\<forall>k. neighbors g' k = neighbors g0 k"
    and keep: "\<forall>n \<in> dom ?d1. d' n = ?d1 n"
    and ent: "\<forall>k. has_entry g' k \<longleftrightarrow> has_entry ?g1 k \<or> k \<in> set (q @ new) \<or> k \<in> dom d' - dom ?d1"
    by blast
  have b: "bfs g d (at # q) = Inr (g', d')"
    using v r by (simp add: case_prod_unfold)
  have dom1: "dom ?d1 = dom d \<union> set new" by (auto simp: dom_def)
  have disj: "\<And>n. n \<in> set new \<Longrightarrow> n \<notin> dom d" using dn by auto
  have keep': "\<forall>n \<in> dom d. d' n = d n"
  proof
    fix n assume n: "n \<in> dom d"
    then have "n \<in> dom ?d1" unfolding dom1 by simp
    with keep have "d' n = ?d1 n" by blast
    with disj[of n] n show "d' n = d n" by auto
  qed
  have sub: "dom ?d1 \<subseteq> dom d'"
  proof
    fix n assume n: "n \<in> dom ?d1"
    with keep have "d' n = ?d1 n" by blast
    with n show "n \<in> dom d'" by (auto simp: domIff)
  qed
  have ent': "\<forall>k. has_entry g' k \<longleftrightarrow> has_entry g k \<or> k \<in> set (at # q) \<or> k \<in> dom d' - dom d"
  proof
    fix k
    have "has_entry g' k \<longleftrightarrow> has_entry ?g1 k \<or> k \<in> set (q @ new) \<or> k \<in> dom d' - dom ?d1"
      using ent by blast
    also have "\<dots> \<longleftrightarrow> has_entry g k \<or> k \<in> set (at # q) \<or> k \<in> dom d' - dom d"
      using sub disj[of k] unfolding has_entry_getitem dom1 by auto
    finally show "has_entry g' k \<longleftrightarrow> has_entry g k \<or> k \<in> set (at # q) \<or> k \<in> dom d' - dom d" .
  qed
  from b inv' n' keep' ent' show ?case by blast
qed

lemma bfs_inv_init: "bfs_inv g s [s \<mapsto> Lst [Str s]] [s]"
  by (simp add: bfs_inv_def is_Lst_def connects_def)

lemma bfs_inv_sound:
  "bfs_inv g s d q \<Longrightarrow> t \<in> dom d \<Longrightarrow> connects g s t (path_of d t)"
  by (auto simp: bfs_inv_def path_of_def flatten_arg_def)

lemma bfs_inv_complete:
  assumes inv: "bfs_inv g s d []"
  shows "is_path g w \<Longrightarrow> hd w = s \<Longrightarrow>
         last w \<in> dom d \<and> length (path_of d (last w)) \<le> length w"
proof (induction w rule: rev_induct)
  case Nil
  then show ?case by simp
next
  case (snoc x xs)
  show ?case
  proof (cases "xs = []")
    case True
    with snoc.prems have "x = s" by simp
    moreover from inv have "d s = Some (Lst [Str s])" unfolding bfs_inv_def by blast
    ultimately show ?thesis using True by (simp add: path_of_def flatten_arg_def domIff)
  next
    case False
    with snoc.prems have p: "is_path g xs" "x \<in> set (neighbors g (last xs))" "hd xs = s"
      by (auto simp: is_path_snoc)
    from snoc.IH[OF p(1) p(3)] have ih: "last xs \<in> dom d" "length (path_of d (last xs)) \<le> length xs"
      by auto
    from inv ih(1) p(2) have "x \<in> dom d \<and> length (path_of d x) \<le> Suc (length (path_of d (last xs)))"
      unfolding bfs_inv_def by auto
    with ih(2) show ?thesis by simp
  qed
qed

lemma shortest_path_run:
  "\<exists>g' d'. bfs g [s \<mapsto> Lst [Str s]] [s] = Inr (g', d') \<and> bfs_inv g s d' [] \<and>
     shortest_path g s t = Inr (g', path_of d' t) \<and>
     (\<forall>k. neighbors g' k = neighbors g k) \<and>
     (\<forall>k. has_entry g' k \<longleftrightarrow> has_entry g k \<or> k \<in> dom d')"
proof -
  from bfs_run[OF bfs_inv_init, of g g s] obtain g' d' where
    r: "bfs g [s \<mapsto> Lst [Str s]] [s] = Inr (g', d')" and inv: "bfs_inv g s d' []"
    and n: "\<forall>k. neighbors g' k = neighbors g k"
    and keep: "\<forall>n \<in> dom [s \<mapsto> Lst [Str s]]. d' n = [s \<mapsto> Lst [Str s]] n"
    and ent: "\<forall>k. has_entry g' k \<longleftrightarrow> has_entry g k \<or> k \<in> set [s] \<or> k \<in> dom d' - dom [s \<mapsto> Lst [Str s]]"
    by blast
  from keep have "s \<in> dom d'" by (auto simp: domIff)
  with ent have ent': "\<forall>k. has_entry g' k \<longleftrightarrow> has_entry g k \<or> k \<in> dom d'" by auto
  have "shortest_path g s t = Inr (g', path_of d' t)"
    unfolding shortest_path_def r by (simp add: path_of_def)
  with r inv n ent' show ?thesis by blast
qed

lemma shortest_path_minimal:
  "\<exists>g' p. shortest_path g s t = Inr (g', p) \<and>
     (if \<exists>w. connects g s t w
      then connects g s t p \<and> (\<forall>w. connects g s t w \<longrightarrow> length p \<le> length w)
      else p = [])"
proof -
  from shortest_path_run[of g s t] obtain g' d' where
    inv: "bfs_inv g s d' []" and sp: "shortest_path g s t = Inr (g', path_of d' t)"
    by blast
  show ?thesis
  proof (cases "\<exists>w. connects g s t w")
    case True
    then obtain w0 where "connects g s t w0" by blast
    then have "t \<in> dom d'" using bfs_inv_complete[OF inv, of w0] by (auto simp: connects_def)
    then have c: "connects g s t (path_of d' t)" by (rule bfs_inv_sound[OF inv])
    have "\<forall>w. connects g s t w \<longrightarrow> length (path_of d' t) \<le> length w"
      using bfs_inv_complete[OF inv] by (auto simp: connects_def)
    with c True sp show ?thesis by auto
  next
    case False
    have "t \<notin> dom d'"
    proof
      assume "t \<in> dom d'"
      then have "connects g s t (path_of d' t)" by (rule bfs_inv_sound[OF inv])
      with False show False by blast
    qed
    then have "path_of d' t = []" by (simp add: path_of_def flatten_arg_def domIff)
    with False sp show ?thesis by auto
  qed
qed

text \<open>
  C2.  For every recorded graph \<^verbatim>\<open>shortest_path\<close> returns.  When no path of recorded
  edges leads from the start to the target it returns the empty list; otherwise it returns
  a path of recorded edges that begins with the start, ends with the target, and is no
  longer than any other such path.
\<close>

theorem shortest_path_bfs:
  "\<exists>g' p. shortest_path g s t = Inr (g', p) \<and>
     (if \<exists>w. connects g s t w
      then connects g s t p \<and> (\<forall>w. connects g s t w \<longrightarrow> length p \<le> length w)
      else p = [])"
  by (rule shortest_path_minimal)

text \<open>
  C10.  When the start equals the target, \<^verbatim>\<open>shortest_path\<close> returns the
  one-element list of the start, whatever the graph records, an empty graph included.
\<close>

theorem shortest_path_start_is_target: "\<exists>g'. shortest_path g s s = Inr (g', [s])"
proof -
  from shortest_path_run[of g s s] obtain g' d' where
    inv: "bfs_inv g s d' []" and sp: "shortest_path g s s = Inr (g', path_of d' s)"
    by blast
  from inv have "d' s = Some (Lst [Str s])" unfolding bfs_inv_def by blast
  then have "path_of d' s = [s]" by (simp add: path_of_def flatten_arg_def)
  with sp show ?thesis by simp
qed

lemma reachable_iff_path: "(s, t) \<in> (edges g)\<^sup>* \<longleftrightarrow> (\<exists>w. connects g s t w)"
proof
  assume "(s, t) \<in> (edges g)\<^sup>*"
  then show "\<exists>w. connects g s t w"
  proof (induction rule: rtrancl_induct)
    case base
    have "connects g s s [s]" by (simp add: connects_def)
    then show ?case by blast
  next
    case (step y z)
    then obtain w where "connects g s y w" by blast
    moreover from step.hyps(2) have "z \<in> set (neighbors g y)" by (simp add: edges_def)
    ultimately have "connects g s z (w @ [z])" by (rule connects_snoc)
    then show ?case by blast
  qed
next
  assume "\<exists>w. connects g s t w"
  then obtain w where w: "is_path g w" "hd w = s" "last w = t" by (auto simp: connects_def)
  from w(1) have "(hd w, last w) \<in> (edges g)\<^sup>*"
  proof (induction g w rule: is_path.induct)
    case (1 g)
    then show ?case by simp
  next
    case (2 g x)
    then show ?case by simp
  next
    case (3 g x y rest)
    then have "(x, y) \<in> edges g" "(y, last (y # rest)) \<in> (edges g)\<^sup>*"
      by (auto simp: edges_def)
    then show ?case by (simp add: converse_rtrancl_into_rtrancl)
  qed
  with w show "(s, t) \<in> (edges g)\<^sup>*" by simp
qed

text \<open>
  C7, amended.  \<^verbatim>\<open>shortest_path\<close> changes no recorded adjacency set and removes no
  entry, but reading \<^verbatim>\<open>self._graph[at]\<close> stores an empty set for every node it
  dequeues that had no entry: afterwards exactly the nodes that had an entry or can be
  reached from the start have one.
\<close>

theorem shortest_path_frame:
  "\<exists>g' p. shortest_path g s t = Inr (g', p) \<and>
     (\<forall>k. neighbors g' k = neighbors g k) \<and>
     (\<forall>k. has_entry g' k \<longleftrightarrow> has_entry g k \<or> (s, k) \<in> (edges g)\<^sup>*)"
proof -
  from shortest_path_run[of g s t] obtain g' d' where
    inv: "bfs_inv g s d' []" and sp: "shortest_path g s t = Inr (g', path_of d' t)"
    and n: "\<forall>k. neighbors g' k = neighbors g k"
    and ent: "\<forall>k. has_entry g' k \<longleftrightarrow> has_entry g k \<or> k \<in> dom d'"
    by blast
  have "k \<in> dom d' \<longleftrightarrow> (s, k) \<in> (edges g)\<^sup>*" for k
  proof
    assume "k \<in> dom d'"
    then have "connects g s k (path_of d' k)" by (rule bfs_inv_sound[OF inv])
    then show "(s, k) \<in> (edges g)\<^sup>*" unfolding reachable_iff_path by blast
  next
    assume "(s, k) \<in> (edges g)\<^sup>*"
    then obtain w where "connects g s k w" unfolding reachable_iff_path by blast
    then show "k \<in> dom d'" using bfs_inv_complete[OF inv, of w] by (auto simp: connects_def)
  qed
  with ent have "\<forall>k. has_entry g' k \<longleftrightarrow> has_entry g k \<or> (s, k) \<in> (edges g)\<^sup>*" by simp
  with sp n show ?thesis by blast
qed

theorem shortest_path_bfs_witness:
  "connects example_graph ''S'' ''T'' [''S'', ''A'', ''T''] \<and>
   (\<exists>g' p. shortest_path example_graph ''S'' ''T'' = Inr (g', p) \<and>
      connects example_graph ''S'' ''T'' p \<and> length p \<le> 3)"
proof -
  have c: "connects example_graph ''S'' ''T'' [''S'', ''A'', ''T'']"
    by (simp add: connects_def example_graph_def neighbors_def)
  from shortest_path_bfs[of example_graph "''S''" "''T''"] obtain g' p where
    sp: "shortest_path example_graph ''S'' ''T'' = Inr (g', p)"
    and cond: "if \<exists>w. connects example_graph ''S'' ''T'' w
      then connects example_graph ''S'' ''T'' p \<and>
           (\<forall>w. connects example_graph ''S'' ''T'' w \<longrightarrow> length p \<le> length w)
      else p = []"
    by blast
  from c have ex: "\<exists>w. connects example_graph ''S'' ''T'' w" by blast
  from cond ex have "connects example_graph ''S'' ''T'' p \<and>
    (\<forall>w. connects example_graph ''S'' ''T'' w \<longrightarrow> length p \<le> length w)"
    by (simp only: if_True) blast
  then have r: "connects example_graph ''S'' ''T'' p"
    "\<forall>w. connects example_graph ''S'' ''T'' w \<longrightarrow> length p \<le> length w"
    by blast+
  from r(2) c have "length p \<le> length [''S'', ''A'', ''T'']" by blast
  then have "length p \<le> 3" by simp
  with c sp r(1) show ?thesis by blast
qed

text \<open>
  C7 as stated fails: on the empty graph the search stores an entry for the start.
\<close>

theorem shortest_path_frame_counterexample:
  "shortest_path [] ''S'' ''T'' = Inr ([(''S'', [])], []) \<and>
   \<not> has_entry [] ''S'' \<and> has_entry [(''S'', [])] ''S''"
  by (simp add: shortest_path_def getitem_def has_entry_def flatten_arg_def)

theorem shortest_path_frame_witness:
  "\<exists>g' p. shortest_path example_graph ''S'' ''T'' = Inr (g', p) \<and>
     neighbors g' ''S'' = [''A'', ''B''] \<and> has_entry g' ''B'' \<and> \<not> has_entry g' ''C''"
proof -
  have e: "edges example_graph = {(''S'', ''A''), (''S'', ''B''), (''A'', ''T'')}"
    by (auto simp: edges_def example_graph_def neighbors_def split: if_splits)
  have r: "(''S'', ''B'') \<in> (edges example_graph)\<^sup>*" unfolding e by blast
  have "(''S'', ''C'') \<notin> (edges example_graph)\<^sup>*"
  proof
    assume "(''S'', ''C'') \<in> (edges example_graph)\<^sup>*"
    then show False unfolding e by (cases rule: rtranclE) auto
  qed
  moreover have "\<not> has_entry example_graph ''C''" "neighbors example_graph ''S'' = [''A'', ''B'']"
    by (simp_all add: has_entry_def example_graph_def neighbors_def)
  ultimately show ?thesis
    using shortest_path_frame[of example_graph "''S''" "''T''"] r by auto
qed

subsection \<open>The start page cannot be fetched\<close>

lemma shortest_path_empty_graph:
  "s \<noteq> t \<Longrightarrow> shortest_path [] s t = Inr ([(s, [])], [])"
  by (simp add: shortest_path_def getitem_def flatten_arg_def)

text \<open>
  C4 as stated fails when the start is the target: the start page cannot be fetched, yet
  the caller receives the one-element path.
\<close>

theorem start_not_fetchable_counterexample:
  "fetch unfetchable_same (start unfetchable_same) = None \<and>
   call unfetchable_same = Some (Returns [''https://w.org/wiki/S''])"
  by code_simp

text \<open>
  C4, amended.  When the start page is not HTML and the start differs from the target,
  \<^verbatim>\<open>_first\<close> returns at once with the crawler as it was created (no edge, nothing
  enqueued, the signal unset, no worker started) and the caller receives the empty list.
\<close>

theorem start_not_fetchable:
  assumes "fetch e (start e) = None" and "start e \<noteq> target e"
  shows "first e = Some (Returns \<lparr>graph = [], queue = [], target_found = False\<rparr>) \<and>
         call e = Some (Returns [])"
  using assms by (simp add: first_def call_def init_crawler_def shortest_path_empty_graph)

theorem start_not_fetchable_witness:
  "first unfetchable = Some (Returns \<lparr>graph = [], queue = [], target_found = False\<rparr>) \<and>
   call unfetchable = Some (Returns [])"
proof -
  have "fetch unfetchable (start unfetchable) = None"
    and "start unfetchable \<noteq> target unfetchable"
    by (simp_all add: unfetchable_def fixture_def)
  then show ?thesis by (rule start_not_fetchable)
qed

subsection \<open>Steps of the workers\<close>

lemma take_entry_graph: "graph (snd (take_entry e st)) = graph st"
  by (simp add: take_entry_def split: option.splits prod.splits)


lemma process_links_has_entry:
  "has_entry (graph (process_links e links current st)) k \<longleftrightarrow>
     has_entry (graph st) k \<or> (k = current \<and> links \<noteq> [])"
  by (simp add: process_links_def process_loop_has_entry prioritize_Nil)


lemma on_response_has_entry_mono:
  "has_entry (graph st) k \<Longrightarrow> has_entry (graph (on_response e current st)) k"
  by (simp add: on_response_def process_links_has_entry split: option.splits)


lemma resume_has_entry_mono:
  "resume e t st = Some (t', st') \<Longrightarrow> has_entry (graph st) k \<Longrightarrow> has_entry (graph st') k"
  using take_entry_graph[of e st]
  by (cases t) (auto simp: on_response_has_entry_mono split: if_splits)


lemma step_resume:
  "step e c c' \<Longrightarrow>
   \<exists>i t st. i < length (workers c) \<and> resume e (workers c ! i) (shared c) = Some (t, st) \<and>
     c' = \<lparr>shared = st, workers = (workers c)[i := t]\<rparr>"
  by (auto simp: step_def fire_def split: option.splits if_splits)

lemma step_has_entry_mono:
  "step e c c' \<Longrightarrow> has_entry (graph (shared c)) k \<Longrightarrow> has_entry (graph (shared c')) k"
  by (auto dest!: step_resume dest: resume_has_entry_mono)


lemma steps_has_entry_mono:
  "(step e)\<^sup>*\<^sup>* c c' \<Longrightarrow> has_entry (graph (shared c)) k \<Longrightarrow> has_entry (graph (shared c')) k"
  by (induction rule: rtranclp_induct) (auto dest: step_has_entry_mono)


subsection \<open>Expanded nodes\<close>

text \<open>
  C8 as stated fails for a page without links: after the page of B is fetched and its
  (no) links are processed, B has no entry; when the page of C enqueues B again, the
  worker that dequeues B fetches it a second time.
\<close>

theorem expanded_node_skipped_counterexample:
  "fetch empty_page ''https://w.org/wiki/B'' = Some [] \<and>
   fires empty_page [0]
     (pool_init empty_page
        [\<lparr>link_text = ''B'', href = ''/wiki/B''\<rparr>, \<lparr>link_text = ''C'', href = ''/wiki/C''\<rparr>]) =
     Some \<lparr>shared = \<lparr>graph = [(''https://w.org/wiki/S'', [''https://w.org/wiki/B'', ''https://w.org/wiki/C''])],
                      queue = [(0, ''https://w.org/wiki/C'')], target_found = False\<rparr>,
           workers = [Fetching ''https://w.org/wiki/B'']\<rparr> \<and>
   fires empty_page [0, 0]
     (pool_init empty_page
        [\<lparr>link_text = ''B'', href = ''/wiki/B''\<rparr>, \<lparr>link_text = ''C'', href = ''/wiki/C''\<rparr>]) =
     Some \<lparr>shared = \<lparr>graph = [(''https://w.org/wiki/S'', [''https://w.org/wiki/B'', ''https://w.org/wiki/C''])],
                      queue = [(0, ''https://w.org/wiki/C'')], target_found = False\<rparr>,
           workers = [AtLoop]\<rparr> \<and>
   \<not> has_entry [(''https://w.org/wiki/S'', [''https://w.org/wiki/B'', ''https://w.org/wiki/C''])]
      ''https://w.org/wiki/B'' \<and>
   fires empty_page [0, 0, 0, 0, 0]
     (pool_init empty_page
        [\<lparr>link_text = ''B'', href = ''/wiki/B''\<rparr>, \<lparr>link_text = ''C'', href = ''/wiki/C''\<rparr>]) =
     Some \<lparr>shared = \<lparr>graph = [(''https://w.org/wiki/S'', [''https://w.org/wiki/B'', ''https://w.org/wiki/C'']),
                               (''https://w.org/wiki/C'', [''https://w.org/wiki/B''])],
                      queue = [], target_found = False\<rparr>,
           workers = [Fetching ''https://w.org/wiki/B'']\<rparr>"
  by code_simp

text \<open>
  C8, amended.  When the page of a node is fetched and has at least one link, the node has
  an entry in the graph once its links are processed, and keeps it; a worker that dequeues
  the node afterwards takes it off the queue and is back at its loop test, without fetching
  the page.
\<close>

theorem expanded_node_skipped:
  assumes "fetch e current = Some links" and "links \<noteq> []"
    and "(step e)\<^sup>*\<^sup>* \<lparr>shared = on_response e current st, workers = ws\<rparr> c"
    and "queue_get (url_less e) (queue (shared c)) = Some ((priority, current), q')"
  shows "has_entry (graph (on_response e current st)) current \<and>
         has_entry (graph (shared c)) current \<and>
         take_entry e (shared c) = (AtLoop, (shared c)\<lparr>queue := q'\<rparr>)"
proof -
  from assms(1,2) have 1: "has_entry (graph (on_response e current st)) current"
    by (simp add: on_response_def process_links_has_entry)
  from steps_has_entry_mono[OF assms(3)] 1 have 2: "has_entry (graph (shared c)) current"
    by simp
  from 2 assms(4) have "take_entry e (shared c) = (AtLoop, (shared c)\<lparr>queue := q'\<rparr>)"
    by (simp add: take_entry_def)
  with 1 2 show ?thesis by blast
qed

lemma stepI: "i < length (workers c) \<Longrightarrow> fire e i c = Some c' \<Longrightarrow> step e c c'"
  by (auto simp: step_def)

theorem expanded_node_skipped_witness:
  "has_entry (graph (on_response back_link ''https://w.org/wiki/S'' init_crawler)) ''https://w.org/wiki/S'' \<and>
   take_entry back_link
     \<lparr>graph = [(''https://w.org/wiki/S'', [''https://w.org/wiki/A'']),
               (''https://w.org/wiki/A'', [''https://w.org/wiki/S''])],
      queue = [(0, ''https://w.org/wiki/S'')], target_found = False\<rparr> =
     (AtLoop,
      \<lparr>graph = [(''https://w.org/wiki/S'', [''https://w.org/wiki/A'']),
                (''https://w.org/wiki/A'', [''https://w.org/wiki/S''])],
       queue = [], target_found = False\<rparr>)"
proof -
  let ?S = "''https://w.org/wiki/S''"
  let ?A = "''https://w.org/wiki/A''"
  let ?c0 = "\<lparr>shared = on_response back_link ?S init_crawler, workers = [AtLoop]\<rparr>"
  let ?c1 = "\<lparr>shared = \<lparr>graph = [(?S, [?A])], queue = [], target_found = False\<rparr>,
              workers = [Fetching ?A]\<rparr>"
  let ?st2 = "\<lparr>graph = [(?S, [?A]), (?A, [?S])], queue = [(0, ?S)], target_found = False\<rparr>"
  let ?c2 = "\<lparr>shared = ?st2, workers = [AtLoop]\<rparr>"
  have f: "fetch back_link ?S = Some [\<lparr>link_text = ''A'', href = ''/wiki/A''\<rparr>]"
    by (simp add: back_link_def)
  have ne: "[\<lparr>link_text = ''A'', href = ''/wiki/A''\<rparr>] \<noteq> []" by simp
  have s1: "step back_link ?c0 ?c1"
    by (rule stepI[of 0]) (simp, code_simp)
  have s2: "step back_link ?c1 ?c2"
    by (rule stepI[of 0]) (simp, code_simp)
  from s1 s2 have steps: "(step back_link)\<^sup>*\<^sup>* ?c0 ?c2" by simp
  have q: "queue_get (url_less back_link) (queue (shared ?c2)) = Some ((0, ?S), [])"
    by code_simp
  from expanded_node_skipped[OF f ne steps q] show ?thesis by simp
qed

subsection \<open>An empty frontier\<close>

lemma resume_idle:
  "queue st = [] \<Longrightarrow> \<not> target_found st \<Longrightarrow> resume e AtLoop st = Some (Waiting, st)"
  "queue st = [] \<Longrightarrow> resume e Waiting st = None"
  by (simp_all add: take_entry_def queue_get_def)

text \<open>
  C6 as stated fails: when the start page has no links the single worker finds the queue
  empty and the call never returns.
\<close>

theorem empty_frontier_blocks_counterexample:
  "first dead_end = Some Blocks \<and> call dead_end = Some Blocks"
  by code_simp

lemma count_AtLoop_update:
  "i < length ws \<Longrightarrow> ws ! i = AtLoop \<Longrightarrow>
   length (filter (\<lambda>t. t = AtLoop) ws) = Suc (length (filter (\<lambda>t. t = AtLoop) (ws[i := Waiting])))"
proof (induction ws arbitrary: i)
  case Nil
  then show ?case by simp
next
  case (Cons w ws)
  then show ?case by (cases i) auto
qed

lemma fire_idle:
  assumes "queue (shared c) = []" and "\<not> target_found (shared c)"
    and "\<forall>t \<in> set (workers c). t = AtLoop \<or> t = Waiting" and "i < length (workers c)"
  shows "fire e i c = (if workers c ! i = AtLoop
      then Some \<lparr>shared = shared c, workers = (workers c)[i := Waiting]\<rparr> else None)"
proof -
  from assms(3,4) have "workers c ! i = AtLoop \<or> workers c ! i = Waiting"
    using nth_mem by blast
  then show ?thesis
  proof
    assume "workers c ! i = AtLoop"
    then show ?thesis using assms(1,2,4) by (simp add: fire_def take_entry_def queue_get_def)
  next
    assume "workers c ! i = Waiting"
    then show ?thesis using assms(1,4) by (simp add: fire_def)
  qed
qed

lemma gather_unfold_blocks:
  "\<not> (\<forall>t \<in> set (workers c). t = Done) \<Longrightarrow> runnable e c = [] \<Longrightarrow> gather e c = Some Blocks"
  by (subst gather.simps) simp

lemma gather_unfold_fire:
  "\<not> (\<forall>t \<in> set (workers c). t = Done) \<Longrightarrow> runnable e c = i # rest \<Longrightarrow>
   fire e (if sched e c \<in> set (i # rest) then sched e c else i) c = Some c' \<Longrightarrow>
   gather e c = gather e c'"
  by (subst gather.simps) auto

lemma gather_idle:
  "queue (shared c) = [] \<Longrightarrow> \<not> target_found (shared c) \<Longrightarrow> workers c \<noteq> [] \<Longrightarrow>
   \<forall>t \<in> set (workers c). t = AtLoop \<or> t = Waiting \<Longrightarrow>
   gather e c = Some Blocks"
proof (induction "length (filter (\<lambda>t. t = AtLoop) (workers c))" arbitrary: c)
  case 0
  then have allw: "\<forall>t \<in> set (workers c). t \<noteq> AtLoop"
    by (auto simp: filter_empty_conv)
  have nd: "\<not> (\<forall>t \<in> set (workers c). t = Done)"
    using "0.prems"(3,4) by (cases "workers c") auto
  have "fire e i c = None" if "i < length (workers c)" for i
    using fire_idle[OF "0.prems"(1,2,4) that, of e] allw that nth_mem by auto
  then have "runnable e c = []" by (auto simp: runnable_def filter_empty_conv)
  with nd show ?case by (rule gather_unfold_blocks)
next
  case (Suc k)
  have nd: "\<not> (\<forall>t \<in> set (workers c). t = Done)"
    using Suc.prems(3,4) by (cases "workers c") auto
  note fired = fire_idle[OF Suc.prems(1,2,4), of _ e]
  from Suc.hyps(2) have "filter (\<lambda>t. t = AtLoop) (workers c) \<noteq> []" by auto
  then have "\<exists>t \<in> set (workers c). t = AtLoop" by (simp add: filter_empty_conv)
  then obtain i0 where i0: "i0 < length (workers c)" "workers c ! i0 = AtLoop"
    by (auto simp: in_set_conv_nth)
  then have "i0 \<in> set (runnable e c)" by (simp add: runnable_def fired)
  then obtain i rest where r: "runnable e c = i # rest" by (cases "runnable e c") auto
  define j where "j = (if sched e c \<in> set (i # rest) then sched e c else i)"
  have "j \<in> set (runnable e c)" unfolding r j_def by simp
  then have j: "j < length (workers c)" "fire e j c \<noteq> None"
    by (auto simp: runnable_def)
  with fired[OF j(1)] have wj: "workers c ! j = AtLoop" by (auto split: if_splits)
  define c' where "c' = \<lparr>shared = shared c, workers = (workers c)[j := Waiting]\<rparr>"
  from fired[OF j(1)] wj have fj: "fire e j c = Some c'" by (simp add: c'_def)
  have cnt: "k = length (filter (\<lambda>t. t = AtLoop) (workers c'))"
    using count_AtLoop_update[OF j(1) wj] Suc.hyps(2) by (simp add: c'_def)
  have sub: "set ((workers c)[j := Waiting]) \<subseteq> insert Waiting (set (workers c))"
    by (rule set_update_subset_insert)
  have "gather e c' = Some Blocks"
  proof (rule Suc.hyps(1)[OF cnt])
    show "queue (shared c') = []" using Suc.prems(1) by (simp add: c'_def)
    show "\<not> target_found (shared c')" using Suc.prems(2) by (simp add: c'_def)
    show "workers c' \<noteq> []" using Suc.prems(3) by (simp add: c'_def)
    show "\<forall>t \<in> set (workers c'). t = AtLoop \<or> t = Waiting"
      using Suc.prems(4) sub by (auto simp: c'_def)
  qed
  moreover have "gather e c = gather e c'"
    using nd r fj[unfolded j_def] by (rule gather_unfold_fire)
  ultimately show ?case by simp
qed

lemma idle_step:
  assumes "queue (shared c) = []" and "\<not> target_found (shared c)"
    and "\<forall>t \<in> set (workers c). t = AtLoop \<or> t = Waiting" and "step e c c'"
  shows "shared c' = shared c \<and> length (workers c') = length (workers c) \<and>
         (\<forall>t \<in> set (workers c'). t = AtLoop \<or> t = Waiting)"
proof -
  from assms(4) obtain i where i: "i < length (workers c)" "fire e i c = Some c'"
    by (auto simp: step_def)
  from fire_idle[OF assms(1,2,3) i(1), of e] i(2)
  have c': "c' = \<lparr>shared = shared c, workers = (workers c)[i := Waiting]\<rparr>"
    by (auto split: if_splits)
  have "set ((workers c)[i := Waiting]) \<subseteq> insert Waiting (set (workers c))"
    by (rule set_update_subset_insert)
  with assms(3) c' show ?thesis by auto
qed

lemma idle_steps:
  assumes "queue (shared c) = []" and "\<not> target_found (shared c)"
    and "\<forall>t \<in> set (workers c). t = AtLoop \<or> t = Waiting" and "(step e)\<^sup>*\<^sup>* c c'"
  shows "shared c' = shared c \<and> length (workers c') = length (workers c) \<and>
         (\<forall>t \<in> set (workers c'). t = AtLoop \<or> t = Waiting)"
  using assms(4)
proof (induction rule: rtranclp_induct)
  case base
  with assms(3) show ?case by simp
next
  case (step c1 c2)
  from step.IH assms(1,2) have "queue (shared c1) = []" "\<not> target_found (shared c1)"
    "\<forall>t \<in> set (workers c1). t = AtLoop \<or> t = Waiting" by simp_all
  from idle_step[OF this step.hyps(2)] step.IH show ?case by simp
qed

lemma idle_rest:
  assumes "queue (shared c) = []" and "\<not> target_found (shared c)"
    and "\<forall>t \<in> set (workers c). t = AtLoop \<or> t = Waiting"
  shows "(\<forall>c'. \<not> step e c c') \<longleftrightarrow> (\<forall>t \<in> set (workers c). t = Waiting)"
proof
  assume stuck: "\<forall>c'. \<not> step e c c'"
  show "\<forall>t \<in> set (workers c). t = Waiting"
  proof
    fix t assume "t \<in> set (workers c)"
    then obtain i where i: "i < length (workers c)" "workers c ! i = t"
      by (auto simp: in_set_conv_nth)
    show "t = Waiting"
    proof (rule ccontr)
      assume "t \<noteq> Waiting"
      with assms(3) i have "workers c ! i = AtLoop" using nth_mem by blast
      with fire_idle[OF assms i(1), of e] i(1)
      have "step e c \<lparr>shared = shared c, workers = (workers c)[i := Waiting]\<rparr>"
        by (auto simp: step_def)
      with stuck show False by blast
    qed
  qed
next
  assume allw: "\<forall>t \<in> set (workers c). t = Waiting"
  show "\<forall>c'. \<not> step e c c'"
  proof (intro allI notI)
    fix c' assume "step e c c'"
    then obtain i where i: "i < length (workers c)" "fire e i c = Some c'"
      by (auto simp: step_def)
    from allw i(1) have "workers c ! i = Waiting" using nth_mem by blast
    with fire_idle[OF assms i(1), of e] i(2) show False by simp
  qed
qed

lemma idle_reaches_rest:
  "queue (shared c) = [] \<Longrightarrow> \<not> target_found (shared c) \<Longrightarrow>
   \<forall>t \<in> set (workers c). t = AtLoop \<or> t = Waiting \<Longrightarrow>
   \<exists>c'. (step e)\<^sup>*\<^sup>* c c' \<and> (\<forall>t \<in> set (workers c'). t = Waiting)"
proof (induction "length (filter (\<lambda>t. t = AtLoop) (workers c))" arbitrary: c)
  case 0
  then have "\<forall>t \<in> set (workers c). t = Waiting" by (auto simp: filter_empty_conv)
  then show ?case by blast
next
  case (Suc k)
  from Suc.hyps(2) have "filter (\<lambda>t. t = AtLoop) (workers c) \<noteq> []" by auto
  then have "\<exists>t \<in> set (workers c). t = AtLoop" by (simp add: filter_empty_conv)
  then obtain i where i: "i < length (workers c)" "workers c ! i = AtLoop"
    by (auto simp: in_set_conv_nth)
  define c1 where "c1 = \<lparr>shared = shared c, workers = (workers c)[i := Waiting]\<rparr>"
  from fire_idle[OF Suc.prems i(1), of e] i have s: "step e c c1"
    by (auto simp: step_def c1_def)
  have cnt: "k = length (filter (\<lambda>t. t = AtLoop) (workers c1))"
    using count_AtLoop_update[OF i] Suc.hyps(2) by (simp add: c1_def)
  from idle_step[OF Suc.prems s]
  have "queue (shared c1) = []" "\<not> target_found (shared c1)"
    "\<forall>t \<in> set (workers c1). t = AtLoop \<or> t = Waiting"
    using Suc.prems(1,2) by simp_all
  from Suc.hyps(1)[OF cnt this] obtain c' where
    "(step e)\<^sup>*\<^sup>* c1 c'" "\<forall>t \<in> set (workers c'). t = Waiting" by blast
  with s show ?case by (meson converse_rtranclp_into_rtranclp)
qed

text \<open>
  C6, amended.  When the queue is empty, the target has not been found, there is at least
  one worker, and every worker is at its loop test or already suspended in the dequeue
  (none is fetching, none has returned), no worker's loop terminates: in every state the
  workers can reach, the shared state is as it was and every worker is still at its loop
  test or suspended in \<^verbatim>\<open>queue.get()\<close>, so none has returned; the workers come to rest
  exactly when all of them are suspended there, and they do reach that state; and
  \<^verbatim>\<open>gather\<close> never completes, whatever the scheduler does.
\<close>

theorem empty_frontier_blocks:
  assumes "queue (shared c) = []" and "\<not> target_found (shared c)" and "workers c \<noteq> []"
    and "\<forall>t \<in> set (workers c). t = AtLoop \<or> t = Waiting"
  shows "gather e c = Some Blocks \<and>
         (\<forall>c'. (step e)\<^sup>*\<^sup>* c c' \<longrightarrow>
            shared c' = shared c \<and> length (workers c') = length (workers c) \<and>
            (\<forall>t \<in> set (workers c'). t = AtLoop \<or> t = Waiting) \<and>
            Done \<notin> set (workers c') \<and>
            ((\<forall>c''. \<not> step e c' c'') \<longleftrightarrow> (\<forall>t \<in> set (workers c'). t = Waiting))) \<and>
         (\<exists>c'. (step e)\<^sup>*\<^sup>* c c' \<and> (\<forall>t \<in> set (workers c'). t = Waiting))"
proof -
  have 1: "gather e c = Some Blocks" using assms by (rule gather_idle)
  have 2: "shared c' = shared c \<and> length (workers c') = length (workers c) \<and>
      (\<forall>t \<in> set (workers c'). t = AtLoop \<or> t = Waiting) \<and>
      Done \<notin> set (workers c') \<and>
      ((\<forall>c''. \<not> step e c' c'') \<longleftrightarrow> (\<forall>t \<in> set (workers c'). t = Waiting))"
    if r: "(step e)\<^sup>*\<^sup>* c c'" for c'
  proof -
    from idle_steps[OF assms(1,2,4) r]
    have a: "shared c' = shared c" "length (workers c') = length (workers c)"
      "\<forall>t \<in> set (workers c'). t = AtLoop \<or> t = Waiting" by simp_all
    from a(3) have d: "Done \<notin> set (workers c')" by auto
    from a(1) assms(1,2) have "queue (shared c') = []" "\<not> target_found (shared c')" by simp_all
    from idle_rest[OF this a(3), of e] a d show ?thesis by simp
  qed
  have 3: "\<exists>c'. (step e)\<^sup>*\<^sup>* c c' \<and> (\<forall>t \<in> set (workers c'). t = Waiting)"
    using assms(1,2,4) by (rule idle_reaches_rest)
  from 1 2 3 show ?thesis by blast
qed

theorem empty_frontier_blocks_witness:
  "gather fixture \<lparr>shared = init_crawler, workers = [AtLoop, Waiting, AtLoop]\<rparr> = Some Blocks \<and>
   Done \<notin> set (workers \<lparr>shared = init_crawler, workers = [Waiting, Waiting, Waiting]\<rparr>)"
proof -
  let ?c = "\<lparr>shared = init_crawler, workers = [AtLoop, Waiting, AtLoop]\<rparr>"
  let ?c1 = "\<lparr>shared = init_crawler, workers = [Waiting, Waiting, AtLoop]\<rparr>"
  let ?c2 = "\<lparr>shared = init_crawler, workers = [Waiting, Waiting, Waiting]\<rparr>"
  have h: "queue (shared ?c) = []" "\<not> target_found (shared ?c)" "workers ?c \<noteq> []"
    "\<forall>t \<in> set (workers ?c). t = AtLoop \<or> t = Waiting"
    by (simp_all add: init_crawler_def)
  have s1: "step fixture ?c ?c1"
    by (rule stepI[of 0]) (simp_all add: fire_def take_entry_def queue_get_def init_crawler_def)
  have s2: "step fixture ?c1 ?c2"
    by (rule stepI[of 2]) (simp_all add: fire_def take_entry_def queue_get_def init_crawler_def)
  from s1 s2 have r: "(step fixture)\<^sup>*\<^sup>* ?c ?c2" by simp
  from empty_frontier_blocks[OF h, of fixture] r show ?thesis by blast
qed

subsection \<open>The termination signal\<close>







subsection \<open>The end-to-end scenario\<close>

lemma gather_one_done: "gather e \<lparr>shared = st, workers = [Done]\<rparr> = Some (Returns st)"
  by (subst gather.simps) simp

lemma gather_one_step:
  assumes "t \<noteq> Done" and "resume e t st = Some (t', st')"
  shows "gather e \<lparr>shared = st, workers = [t]\<rparr> = gather e \<lparr>shared = st', workers = [t']\<rparr>"
proof -
  let ?c = "\<lparr>shared = st, workers = [t]\<rparr>"
  have f: "fire e 0 ?c = Some \<lparr>shared = st', workers = [t']\<rparr>"
    using assms(2) by (simp add: fire_def)
  then have r: "runnable e ?c = [0]" by (simp add: runnable_def)
  have nd: "\<not> (\<forall>x \<in> set (workers ?c). x = Done)" using assms(1) by simp
  from f have "fire e (if sched e ?c \<in> set [0] then sched e ?c else 0) ?c =
      Some \<lparr>shared = st', workers = [t']\<rparr>" by simp
  with nd r show ?thesis by (rule gather_unfold_fire)
qed

lemma mem_edges: "v \<in> set (neighbors g k) \<longleftrightarrow> (k, v) \<in> edges g"
  by (simp add: edges_def)

lemma edges_Nil: "edges [] = {}"
  by (simp add: edges_def neighbors_def)

lemma queue_get_two:
  "x \<noteq> y \<Longrightarrow>
   queue_get lt [x, y] = Some (x, [y]) \<or> queue_get lt [x, y] = Some (y, [x])"
  by (simp add: queue_get_def)

lemma queue_get_one: "queue_get lt [x] = Some (x, [])"
  by (simp add: queue_get_def)

lemma prioritize_one: "\<exists>p. prioritize_by_keyword e [l] kws = [(p, url_of e (href l))]"
  by (simp split: option.splits)

lemma prioritize_two:
  "\<exists>p p'. prioritize_by_keyword e [l, l'] kws = [(p, url_of e (href l)), (p', url_of e (href l'))]"
  by (simp split: option.splits)

lemma only_path:
  assumes e: "edges g = {(s, a), (s, b), (a, t)}" and d: "distinct [s, a, b, t]"
    and c: "connects g s t p" and l: "length p \<le> 3"
  shows "p = [s, a, t]"
proof -
  from c have ip: "is_path g p" and h: "hd p = s" and la: "last p = t"
    by (simp_all add: connects_def)
  from ip obtain x p1 where p: "p = x # p1" by (cases p) auto
  with h have x: "x = s" by simp
  show ?thesis
  proof (cases p1)
    case Nil
    with p la x d show ?thesis by simp
  next
    case (Cons y p2)
    note p1 = Cons
    show ?thesis
    proof (cases p2)
      case Nil
      with p p1 la have "y = t" by simp
      moreover from ip p p1 x have "(s, y) \<in> edges g" by (simp add: mem_edges)
      ultimately show ?thesis using e d by auto
    next
      case (Cons z p3)
      with l p p1 have p3: "p3 = []" by simp
      with p p1 Cons la have z: "z = t" by simp
      from ip p p1 Cons x have "(s, y) \<in> edges g" "(y, z) \<in> edges g" by (simp_all add: mem_edges)
      with e d z have "y = a" by auto
      with p p1 Cons p3 x z show ?thesis by simp
    qed
  qed
qed

lemma crawl_fixture:
  assumes pk: "place_ok e" and one: "concurrent e = 1"
    and d: "distinct [start e, a, b, target e]"
    and fs: "fetch e (start e) = Some [la, lb]"
    and ja: "join e (start e) (url_of e (href la)) = a"
    and jb: "join e (start e) (url_of e (href lb)) = b"
    and fa: "fetch e a = Some [lt]" and jt: "join e a (url_of e (href lt)) = target e"
    and fb: "fetch e b = Some []"
  shows "\<exists>st. first e = Some (Returns st) \<and>
           edges (graph st) = {(start e, a), (start e, b), (a, target e)}"
proof -
  let ?s = "start e" and ?t = "target e"
  obtain pa pb where pr: "prioritize_by_keyword e [la, lb] (keyword_list e) =
      [(pa, url_of e (href la)), (pb, url_of e (href lb))]"
    using prioritize_two by blast
  obtain pt where prt: "prioritize_by_keyword e [lt] (keyword_list e) = [(pt, url_of e (href lt))]"
    using prioritize_one by blast
  let ?g0 = "graph_add e ?s b (graph_add e ?s a [])"
  let ?X = "\<lparr>graph = ?g0, queue = [(pa, a), (pb, b)], target_found = False\<rparr>"
  from d have ne: "a \<noteq> ?t" "b \<noteq> ?t" "a \<noteq> ?s" "b \<noteq> ?s" "a \<noteq> b" by auto
  have X: "process_links e [la, lb] ?s init_crawler = ?X"
    using ne by (simp add: process_links_def pr ja jb Let_def init_crawler_def queue_put_def
        del: prioritize_by_keyword.simps)
  have init: "first e = gather e \<lparr>shared = ?X, workers = [AtLoop]\<rparr>"
    by (simp add: first_def fs pool_init_def X one)
  have noa: "\<not> has_entry ?g0 a" "\<not> has_entry ?g0 b"
    using ne by (simp_all add: has_entry_graph_add) (simp_all add: has_entry_def)
  have e0: "edges ?g0 = {(?s, a), (?s, b)}"
    by (auto simp: edges_graph_add[OF pk] edges_Nil)
  let ?g1 = "graph_add e a ?t ?g0"
  have e1: "edges ?g1 = {(?s, a), (?s, b), (a, ?t)}"
    by (auto simp: edges_graph_add[OF pk] edges_Nil)
  have expand_a: "on_response e a \<lparr>graph = ?g0, queue = q, target_found = False\<rparr> =
      \<lparr>graph = ?g1, queue = q, target_found = True\<rparr>" for q
    by (simp add: on_response_def fa process_links_def prt jt Let_def
        del: prioritize_by_keyword.simps)
  have expand_b: "on_response e b st = st" for st
    by (simp add: on_response_def fb process_links_def)
  have fin: "gather e \<lparr>shared = \<lparr>graph = ?g0, queue = q, target_found = False\<rparr>,
                       workers = [Fetching a]\<rparr> =
             Some (Returns \<lparr>graph = ?g1, queue = q, target_found = True\<rparr>)" for q
  proof -
    have "gather e \<lparr>shared = \<lparr>graph = ?g0, queue = q, target_found = False\<rparr>,
                     workers = [Fetching a]\<rparr> =
          gather e \<lparr>shared = \<lparr>graph = ?g1, queue = q, target_found = True\<rparr>, workers = [AtLoop]\<rparr>"
      by (rule gather_one_step) (simp_all add: expand_a)
    also have "\<dots> = gather e \<lparr>shared = \<lparr>graph = ?g1, queue = q, target_found = True\<rparr>,
                               workers = [Done]\<rparr>"
      by (rule gather_one_step) simp_all
    finally show ?thesis by (simp add: gather_one_done)
  qed
  from ne have "(pa, a) \<noteq> (pb, b)" by simp
  from queue_get_two[OF this, of "url_less e"]
  have "\<exists>q. first e = Some (Returns \<lparr>graph = ?g1, queue = q, target_found = True\<rparr>)"
  proof
    assume g: "queue_get (url_less e) [(pa, a), (pb, b)] = Some ((pa, a), [(pb, b)])"
    have "gather e \<lparr>shared = ?X, workers = [AtLoop]\<rparr> =
          gather e \<lparr>shared = \<lparr>graph = ?g0, queue = [(pb, b)], target_found = False\<rparr>,
                     workers = [Fetching a]\<rparr>"
      by (rule gather_one_step) (simp_all add: take_entry_def g noa)
    with init fin show ?thesis by simp
  next
    assume g: "queue_get (url_less e) [(pa, a), (pb, b)] = Some ((pb, b), [(pa, a)])"
    have "gather e \<lparr>shared = ?X, workers = [AtLoop]\<rparr> =
          gather e \<lparr>shared = \<lparr>graph = ?g0, queue = [(pa, a)], target_found = False\<rparr>,
                     workers = [Fetching b]\<rparr>"
      by (rule gather_one_step) (simp_all add: take_entry_def g noa)
    also have "\<dots> = gather e \<lparr>shared = \<lparr>graph = ?g0, queue = [(pa, a)], target_found = False\<rparr>,
                     workers = [AtLoop]\<rparr>"
      by (rule gather_one_step) (simp_all add: expand_b)
    also have "\<dots> = gather e \<lparr>shared = \<lparr>graph = ?g0, queue = [], target_found = False\<rparr>,
                     workers = [Fetching a]\<rparr>"
      by (rule gather_one_step) (simp_all add: take_entry_def queue_get_one noa)
    finally show ?thesis using init fin by simp
  qed
  then obtain q where "first e = Some (Returns \<lparr>graph = ?g1, queue = q, target_found = True\<rparr>)"
    by blast
  with e1 show ?thesis by simp
qed

text \<open>
  C1.  One worker; the start page links to A and B, the page of A links only to the target,
  the page of B has no links, and the four nodes differ.  Then the crawl ends and
  \<^verbatim>\<open>__call__\<close> returns the start, A, the target, whichever of A and B the queue hands
  out first and in whatever order the adjacency sets iterate.
\<close>

theorem end_to_end:
  assumes "place_ok e" and "concurrent e = 1"
    and "distinct [start e, a, b, target e]"
    and "fetch e (start e) = Some [la, lb]"
    and "join e (start e) (url_of e (href la)) = a"
    and "join e (start e) (url_of e (href lb)) = b"
    and "fetch e a = Some [lt]" and "join e a (url_of e (href lt)) = target e"
    and "fetch e b = Some []"
  shows "call e = Some (Returns [start e, a, target e])"
proof -
  from crawl_fixture[OF assms] obtain st where
    f: "first e = Some (Returns st)"
    and ed: "edges (graph st) = {(start e, a), (start e, b), (a, target e)}" by blast
  from shortest_path_minimal[of "graph st" "start e" "target e"] obtain g' p where
    sp: "shortest_path (graph st) (start e) (target e) = Inr (g', p)"
    and cond: "if \<exists>w. connects (graph st) (start e) (target e) w
      then connects (graph st) (start e) (target e) p \<and>
           (\<forall>w. connects (graph st) (start e) (target e) w \<longrightarrow> length p \<le> length w)
      else p = []"
    by blast
  have c: "connects (graph st) (start e) (target e) [start e, a, target e]"
    by (simp add: connects_def mem_edges ed)
  then have ex: "\<exists>w. connects (graph st) (start e) (target e) w" by blast
  from cond ex have "connects (graph st) (start e) (target e) p \<and>
      (\<forall>w. connects (graph st) (start e) (target e) w \<longrightarrow> length p \<le> length w)"
    by (simp only: if_True) blast
  with c have cp: "connects (graph st) (start e) (target e) p" and "length p \<le> 3"
    by auto
  from only_path[OF ed assms(3) this] have "p = [start e, a, target e]" .
  with f sp show ?thesis by (simp add: call_def)
qed

theorem end_to_end_witness:
  "call fixture =
     Some (Returns [''https://w.org/wiki/S'', ''https://w.org/wiki/A'', ''https://w.org/wiki/T''])"
proof -
  have "call fixture = Some (Returns [start fixture, ''https://w.org/wiki/A'', target fixture])"
    by (rule end_to_end[where b = "''https://w.org/wiki/B''"
          and la = "\<lparr>link_text = ''A'', href = ''/wiki/A''\<rparr>"
          and lb = "\<lparr>link_text = ''B'', href = ''/wiki/B''\<rparr>"
          and lt = "\<lparr>link_text = ''Target'', href = ''/wiki/T''\<rparr>"])
       (simp_all add: place_ok_fixture, simp_all add: fixture_def)
  then show ?thesis by (simp add: fixture_def)
qed



end
